theory Spec2Isabelle
  imports Complex_Main "HOL-Library.Sublist" "HOL-Library.AList" "HOL-Library.Multiset"
begin

section \<open>Strings and character classes\<close>

text \<open>
  A Python \<open>str\<close> is modelled as a \<open>string\<close>; a \<open>char\<close> stands for the code point
  of the same number, so the model covers the code points 0 to 255 (ASCII and Latin-1).
  The character classes below are Python's on that range: \<open>str.isspace\<close> (which is also
  what the regular expression class \<open>\s\<close>, \<open>str.split()\<close> and \<open>str.strip()\<close> use),
  \<open>str.isalpha\<close>, the regular expression class \<open>\w\<close> (alphanumeric or underscore) and
  \<open>str.lower\<close>.
\<close>

definition cp :: "char \<Rightarrow> nat" where
  "cp c = of_char c"

definition is_space :: "char \<Rightarrow> bool" where
  "is_space c = ((9 \<le> cp c \<and> cp c \<le> 13) \<or> (28 \<le> cp c \<and> cp c \<le> 32) \<or> cp c = 133 \<or> cp c = 160)"

definition is_upper :: "char \<Rightarrow> bool" where
  "is_upper c = ((65 \<le> cp c \<and> cp c \<le> 90) \<or> (192 \<le> cp c \<and> cp c \<le> 222 \<and> cp c \<noteq> 215))"

definition is_alpha :: "char \<Rightarrow> bool" where
  "is_alpha c = ((65 \<le> cp c \<and> cp c \<le> 90) \<or> (97 \<le> cp c \<and> cp c \<le> 122) \<or>
     cp c = 170 \<or> cp c = 181 \<or> cp c = 186 \<or>
     (192 \<le> cp c \<and> cp c \<noteq> 215 \<and> cp c \<noteq> 247))"

definition is_word :: "char \<Rightarrow> bool" where
  "is_word c = (is_alpha c \<or> (48 \<le> cp c \<and> cp c \<le> 57) \<or> cp c = 95 \<or>
     cp c = 178 \<or> cp c = 179 \<or> cp c = 185 \<or> (188 \<le> cp c \<and> cp c \<le> 190))"

definition lower_char :: "char \<Rightarrow> char" where
  "lower_char c = (if is_upper c then char_of (cp c + 32) else c)"

definition lower :: "string \<Rightarrow> string" where
  "lower s = map lower_char s"

text \<open>\<open>s.strip()\<close> and \<open>s.strip(chars)\<close>: drop the characters of a class at both ends.\<close>

definition strip_with :: "(char \<Rightarrow> bool) \<Rightarrow> string \<Rightarrow> string" where
  "strip_with P s = rev (dropWhile P (rev (dropWhile P s)))"

definition strip :: "string \<Rightarrow> string" where
  "strip s = strip_with is_space s"

text \<open>\<open>s.split()\<close>: the maximal runs of non-whitespace characters, in order.\<close>

fun split_aux :: "string \<Rightarrow> string \<Rightarrow> string list" where
  "split_aux cur [] = (if cur = [] then [] else [cur])"
| "split_aux cur (c # cs) =
     (if is_space c then (if cur = [] then split_aux [] cs else cur # split_aux [] cs)
      else split_aux (cur @ [c]) cs)"

definition split :: "string \<Rightarrow> string list" where
  "split s = split_aux [] s"

text \<open>\<open>a in b\<close> on strings: \<open>a\<close> occurs in \<open>b\<close> as a contiguous substring.\<close>

fun is_substring :: "string \<Rightarrow> string \<Rightarrow> bool" where
  "is_substring a [] = (a = [])"
| "is_substring a (c # cs) = (prefix a (c # cs) \<or> is_substring a cs)"

text \<open>\<open>re.sub(r'\s+', ' ', text)\<close>: every maximal run of whitespace becomes one space.\<close>

function collapse_ws :: "string \<Rightarrow> string" where
  "collapse_ws [] = []"
| "collapse_ws (c # cs) =
     (if is_space c then CHR '' '' # collapse_ws (dropWhile is_space cs)
      else c # collapse_ws cs)"
  by pat_completeness auto
termination
  by (relation "measure length") (auto simp: length_dropWhile_le less_Suc_eq_le)

section \<open>Normalizer\<close>

text \<open>
  \<open>_normalize\<close>: lower-case, delete every character that is neither a word character
  nor whitespace, collapse whitespace runs, strip.
\<close>

definition normalize :: "string \<Rightarrow> string" where
  "normalize text =
     strip (collapse_ws (filter (\<lambda>c. is_word c \<or> is_space c) (lower text)))"

section \<open>Registry and loader\<close>

datatype py_error = FileNotFoundError | KeyError | ValueError

record sponsor =
  name :: string
  city :: string
  county :: string
  rating :: string
  route :: string

text \<open>
  The two dictionaries keep their insertion order, which the search loops over, so they
  are association lists; \<open>AList.update\<close> overwrites a key in place and appends a new key
  at the end, as a Python dict does. A Python set of strings is a list without
  duplicates; the order in which such a set is iterated is fixed by the argument
  \<open>rank\<close> of the search (see \<open>set_iter\<close>).
\<close>

record registry =
  sponsors :: "sponsor list"
  name_to_sponsors :: "(string \<times> sponsor list) list"
  word_index :: "(string \<times> string list) list"

definition set_add :: "string \<Rightarrow> string list \<Rightarrow> string list" where
  "set_add x xs = (if x \<in> set xs then xs else xs @ [x])"

definition set_update :: "string list \<Rightarrow> string list \<Rightarrow> string list" where
  "set_update xs ys = fold set_add ys xs"

definition set_iter :: "(string \<Rightarrow> nat) \<Rightarrow> string list \<Rightarrow> string list" where
  "set_iter rank xs = sort_key rank xs"

text \<open>A row of \<open>csv.DictReader\<close> whose cells are strings: column name to cell;
  \<open>row.get(k, '')\<close>. \<open>cell\<close> is \<open>row.get(k, '').strip().strip('"')\<close>.\<close>

type_synonym row = "(string \<times> string) list"

definition row_get :: "row \<Rightarrow> string \<Rightarrow> string" where
  "row_get r k = (case map_of r k of None \<Rightarrow> [] | Some v \<Rightarrow> v)"

definition cell :: "row \<Rightarrow> string \<Rightarrow> string" where
  "cell r k = strip_with (\<lambda>c. c = CHR 0x22) (strip (row_get r k))"

definition index_word :: "string \<Rightarrow> string \<Rightarrow> (string \<times> string list) list \<Rightarrow> (string \<times> string list) list" where
  "index_word normalized word wi =
     (if length word > 2
      then (case map_of wi word of
              None \<Rightarrow> AList.update word (set_add normalized []) wi
            | Some names \<Rightarrow> AList.update word (set_add normalized names) wi)
      else wi)"

definition add_row :: "row \<Rightarrow> registry \<Rightarrow> registry" where
  "add_row r reg =
     (let org_name = cell r ''Organisation Name'' in
      if org_name = [] then reg
      else
        let sp = \<lparr>name = org_name, city = cell r ''Town/City'', county = cell r ''County'',
                  rating = cell r ''Type & Rating'', route = cell r ''Route''\<rparr>;
            normalized = normalize org_name;
            n2s = (case map_of (name_to_sponsors reg) normalized of
                     None \<Rightarrow> AList.update normalized [sp] (name_to_sponsors reg)
                   | Some sps \<Rightarrow> AList.update normalized (sps @ [sp]) (name_to_sponsors reg))
        in \<lparr>sponsors = sponsors reg @ [sp],
            name_to_sponsors = n2s,
            word_index = fold (index_word normalized) (split normalized) (word_index reg)\<rparr>)"

definition empty_registry :: registry where
  "empty_registry = \<lparr>sponsors = [], name_to_sponsors = [], word_index = []\<rparr>"

definition index_rows :: "row list \<Rightarrow> registry" where
  "index_rows rows = fold add_row rows empty_registry"

text \<open>\<open>_load_data\<close>; \<open>None\<close> stands for a path at which no file exists.\<close>

definition load_data :: "row list option \<Rightarrow> py_error + registry" where
  "load_data file = (case file of None \<Rightarrow> Inl FileNotFoundError | Some rows \<Rightarrow> Inr (index_rows rows))"

section \<open>Matcher\<close>

text \<open>
  Scores and thresholds are Python floats; they are modelled as rationals, the float
  literals by the decimal numbers written in the source and the quotient of
  \<open>_simple_similarity\<close> by the exact quotient.
\<close>

type_synonym match = "sponsor \<times> rat"

definition simple_similarity :: "string \<Rightarrow> string \<Rightarrow> rat" where
  "simple_similarity a b =
     (let a_words = remdups (split (normalize a));
          b_words = remdups (split (normalize b))
      in if a_words = [] \<or> b_words = [] then 0
         else
           let intersection = length (filter (\<lambda>w. w \<in> set b_words) a_words);
               union = length (remdups (a_words @ b_words))
           in if union > 0 then of_nat intersection / of_nat union else 0)"

text \<open>Stage 1: exact match. The state is the pair of \<open>results\<close> and \<open>seen\<close>.\<close>

definition exact_step :: "sponsor \<Rightarrow> match list \<times> string set \<Rightarrow> match list \<times> string set" where
  "exact_step sp st =
     (let key = name sp in
      if key \<notin> snd st then (fst st @ [(sp, 1)], insert key (snd st)) else st)"

definition exact_stage :: "registry \<Rightarrow> string \<Rightarrow> match list \<times> string set \<Rightarrow> match list \<times> string set" where
  "exact_stage reg query_norm st =
     (case map_of (name_to_sponsors reg) query_norm of
        None \<Rightarrow> st
      | Some sps \<Rightarrow> fold exact_step sps st)"

text \<open>Stage 2: substring matches, over every indexed name in dictionary order.\<close>

definition substring_step :: "string \<Rightarrow> string \<times> sponsor list \<Rightarrow> match list \<times> string set \<Rightarrow> match list \<times> string set" where
  "substring_step query_norm entry st =
     (let nm = fst entry; sps = snd entry in
      if nm \<in> snd st then st
      else if is_substring query_norm nm
      then (fst st @ map (\<lambda>sp. (sp, 9 / 10)) sps, insert nm (snd st))
      else if length query_norm > 5 \<and> is_substring nm query_norm
      then (fst st @ map (\<lambda>sp. (sp, 85 / 100)) sps, insert nm (snd st))
      else st)"

definition substring_stage :: "registry \<Rightarrow> string \<Rightarrow> match list \<times> string set \<Rightarrow> match list \<times> string set" where
  "substring_stage reg query_norm st = fold (substring_step query_norm) (name_to_sponsors reg) st"

text \<open>Stage 3: the candidate names of the query words.\<close>

definition candidate_step :: "registry \<Rightarrow> string \<Rightarrow> string list \<Rightarrow> string list" where
  "candidate_step reg word cands =
     (case map_of (word_index reg) word of
        None \<Rightarrow> cands
      | Some names \<Rightarrow> set_update cands names)"

definition candidate_names :: "registry \<Rightarrow> string list \<Rightarrow> string list" where
  "candidate_names reg query_words = fold (candidate_step reg) query_words []"

text \<open>Stage 4: score the candidates; the two nested loops of the boost.\<close>

definition boost_pair :: "string \<Rightarrow> string \<Rightarrow> rat \<Rightarrow> rat" where
  "boost_pair qt nt score =
     (let s1 = (if prefix qt nt \<or> prefix nt qt then max score (7 / 10) else score)
      in if length qt \<ge> 3 \<and> is_substring qt nt then max s1 (75 / 100) else s1)"

definition boost :: "string list \<Rightarrow> string list \<Rightarrow> rat \<Rightarrow> rat" where
  "boost query_tokens name_tokens score =
     fold (\<lambda>qt sc. fold (boost_pair qt) name_tokens sc) query_tokens score"

definition candidate_score :: "string \<Rightarrow> string \<Rightarrow> rat" where
  "candidate_score query_norm nm =
     boost (remdups (split query_norm)) (remdups (split nm)) (simple_similarity query_norm nm)"

fun score_stage :: "registry \<Rightarrow> string \<Rightarrow> rat \<Rightarrow> string list \<Rightarrow> match list \<times> string set
    \<Rightarrow> py_error + (match list \<times> string set)" where
  "score_stage reg query_norm threshold [] st = Inr st"
| "score_stage reg query_norm threshold (nm # rest) st =
     (if nm \<in> snd st then score_stage reg query_norm threshold rest st
      else
        let score = candidate_score query_norm nm in
        if score \<ge> threshold
        then (case map_of (name_to_sponsors reg) nm of
                None \<Rightarrow> Inl KeyError
              | Some sps \<Rightarrow>
                  score_stage reg query_norm threshold rest
                    (fst st @ map (\<lambda>sp. (sp, score)) sps, insert nm (snd st)))
        else score_stage reg query_norm threshold rest st)"

text \<open>
  \<open>results.sort(key=lambda x: x[1], reverse=True)\<close> is a stable sort by descending
  score; \<open>results[:max_results]\<close> is Python's slice, which for a negative bound drops
  that many elements from the end. \<open>search_ranked\<close> is the body of \<open>search\<close> up to and
  including the sort, \<open>search\<close> cuts its result; a lookup of a candidate name that is
  not a key of \<open>name_to_sponsors\<close> raises \<open>KeyError\<close>.
\<close>

definition sort_by_score :: "match list \<Rightarrow> match list" where
  "sort_by_score results = sort_key (\<lambda>m. - snd m) results"

definition slice_to :: "int \<Rightarrow> 'a list \<Rightarrow> 'a list" where
  "slice_to n xs = (if n \<ge> 0 then take (nat n) xs else take (length xs - nat (- n)) xs)"

definition search_ranked :: "(string \<Rightarrow> nat) \<Rightarrow> registry \<Rightarrow> string \<Rightarrow> rat \<Rightarrow> py_error + match list" where
  "search_ranked rank reg query threshold =
     (let query_norm = normalize query;
          query_words = filter (\<lambda>w. length w > 2) (split query_norm);
          st1 = exact_stage reg query_norm ([], {});
          st2 = substring_stage reg query_norm st1;
          cands = set_iter rank (candidate_names reg query_words)
      in case score_stage reg query_norm threshold cands st2 of
           Inl e \<Rightarrow> Inl e
         | Inr st \<Rightarrow> Inr (sort_by_score (fst st)))"

definition search :: "(string \<Rightarrow> nat) \<Rightarrow> registry \<Rightarrow> string \<Rightarrow> rat \<Rightarrow> int \<Rightarrow> py_error + match list" where
  "search rank reg query threshold max_results =
     (case search_ranked rank reg query threshold of
        Inl e \<Rightarrow> Inl e
      | Inr results \<Rightarrow> Inr (slice_to max_results results))"

definition is_sponsor :: "(string \<Rightarrow> nat) \<Rightarrow> registry \<Rightarrow> string \<Rightarrow> rat \<Rightarrow> py_error + sponsor option" where
  "is_sponsor rank reg company_name threshold =
     (case search rank reg company_name threshold 1 of
        Inl e \<Rightarrow> Inl e
      | Inr results \<Rightarrow>
          (case results of
             [] \<Rightarrow> Inr None
           | m # _ \<Rightarrow> if snd m \<ge> threshold then Inr (Some (fst m)) else Inr None))"

section \<open>Deduplication of results\<close>

text \<open>\<open>deduplicate_results\<close> of the web layer: \<open>seen\<close> is a dictionary from company name
  to the best match so far.\<close>

definition dedup_step :: "match \<Rightarrow> (string \<times> match) list \<Rightarrow> (string \<times> match) list" where
  "dedup_step m seen =
     (let nm = name (fst m) in
      case map_of seen nm of
        None \<Rightarrow> AList.update nm m seen
      | Some best \<Rightarrow> if snd best < snd m then AList.update nm m seen else seen)"

definition deduplicate_results :: "match list \<Rightarrow> match list" where
  "deduplicate_results results = sort_by_score (map snd (fold dedup_step results []))"

section \<open>URL extractor\<close>

text \<open>
  \<open>urlparse(url).netloc\<close> of Python's \<open>urllib.parse\<close> (CPython 3.12): leading control
  characters and spaces are stripped, tabs and line breaks removed, a scheme is split off,
  and if the rest starts with \<open>//\<close> the network location runs up to the first of
  \<open>/ ? #\<close>. A network location with an unmatched square bracket raises \<open>ValueError\<close>;
  with matched brackets the bracketed host must be an IPv6 or IPvFuture literal
  (\<open>ipaddress\<close>), a check taken here as the parameter \<open>host_ok\<close>. The remaining check
  of the library, on characters that the NFKC normalisation turns into \<open>/ ? # @ :\<close>,
  never fires on the code points 0 to 255.
\<close>

definition is_ascii_alpha :: "char \<Rightarrow> bool" where
  "is_ascii_alpha c = ((65 \<le> cp c \<and> cp c \<le> 90) \<or> (97 \<le> cp c \<and> cp c \<le> 122))"

definition is_scheme_char :: "char \<Rightarrow> bool" where
  "is_scheme_char c = (is_ascii_alpha c \<or> (48 \<le> cp c \<and> cp c \<le> 57) \<or> c \<in> set ''+-.'')"

definition split_scheme :: "string \<Rightarrow> string" where
  "split_scheme url =
     (let pre = takeWhile (\<lambda>c. c \<noteq> CHR '':'') url in
      if CHR '':'' \<in> set url \<and> pre \<noteq> [] \<and> is_ascii_alpha (hd url) \<and> list_all is_scheme_char pre
      then drop (length pre + 1) url
      else url)"

definition urlparse_netloc :: "(string \<Rightarrow> bool) \<Rightarrow> string \<Rightarrow> py_error + string" where
  "urlparse_netloc host_ok url =
     (let url1 = dropWhile (\<lambda>c. cp c \<le> 32) url;
          url2 = filter (\<lambda>c. cp c \<noteq> 9 \<and> cp c \<noteq> 10 \<and> cp c \<noteq> 13) url1;
          rest = split_scheme url2
      in if take 2 rest = ''//''
         then
           let netloc = takeWhile (\<lambda>c. c \<notin> set ''/?#'') (drop 2 rest);
               opening = CHR ''['' \<in> set netloc;
               closing = CHR '']'' \<in> set netloc
           in if (opening \<and> \<not> closing) \<or> (closing \<and> \<not> opening) then Inl ValueError
              else if opening \<and> closing \<and>
                      \<not> host_ok (takeWhile (\<lambda>c. c \<noteq> CHR '']'')
                                   (drop 1 (dropWhile (\<lambda>c. c \<noteq> CHR ''['') netloc)))
              then Inl ValueError
              else Inr netloc
         else Inr [])"

definition KNOWN_COMPANY_DOMAINS :: "(string \<times> string) list" where
  "KNOWN_COMPANY_DOMAINS =
     [(''careers.google.com'', ''Google''),
      (''jobs.apple.com'', ''Apple''),
      (''careers.microsoft.com'', ''Microsoft''),
      (''amazon.jobs'', ''Amazon''),
      (''careers.barclays.co.uk'', ''Barclays''),
      (''jobs.hsbc.co.uk'', ''HSBC''),
      (''careers.nhs.uk'', ''NHS''),
      (''jobs.tesco.com'', ''Tesco''),
      (''careers.sainsburys.co.uk'', ''Sainsburys'')]"

definition known_company :: "string \<Rightarrow> string option" where
  "known_company domain =
     map_option snd (find (\<lambda>kv. is_substring (fst kv) domain) KNOWN_COMPANY_DOMAINS)"

text \<open>
  \<open>str.title()\<close>: a character after a cased character is lower-cased, any other is
  title-cased. On the code points 0 to 255 the cased characters are the alphabetic ones;
  the title case of U+00DF is the two letters \<open>Ss\<close>; the title cases of U+00B5 and U+00FF
  lie beyond code point 255, and the model leaves these two characters as they are.
\<close>

definition title_char :: "char \<Rightarrow> string" where
  "title_char c =
     (if (97 \<le> cp c \<and> cp c \<le> 122) \<or> (224 \<le> cp c \<and> cp c \<le> 254 \<and> cp c \<noteq> 247)
      then [char_of (cp c - 32)]
      else if cp c = 223 then ''Ss''
      else [c])"

fun title_aux :: "bool \<Rightarrow> string \<Rightarrow> string" where
  "title_aux previous_is_cased [] = []"
| "title_aux previous_is_cased (c # cs) =
     (if previous_is_cased then [lower_char c] else title_char c) @ title_aux (is_alpha c) cs"

definition title :: "string \<Rightarrow> string" where
  "title s = title_aux False s"

definition replace_dash :: "string \<Rightarrow> string" where
  "replace_dash s = map (\<lambda>c. if c = CHR ''-'' then CHR '' '' else c) s"

text \<open>
  \<open>re.sub(r'\bword\b', '', name, flags=re.IGNORECASE)\<close> for a word of letters: scanning
  from the left, an occurrence of the word (in any case) that is neither preceded nor
  followed by a word character is deleted. \<open>skip\<close> counts the characters of a deleted
  occurrence still to be dropped.
\<close>

definition ci_prefix :: "string \<Rightarrow> string \<Rightarrow> bool" where
  "ci_prefix w s = (length w \<le> length s \<and> lower (take (length w) s) = lower w)"

definition at_word_end :: "string \<Rightarrow> bool" where
  "at_word_end s = (case s of [] \<Rightarrow> True | c # _ \<Rightarrow> \<not> is_word c)"

fun remove_word :: "string \<Rightarrow> bool \<Rightarrow> nat \<Rightarrow> string \<Rightarrow> string" where
  "remove_word w prev skip [] = []"
| "remove_word w prev skip (c # cs) =
     (if skip > 0 then remove_word w (is_word c) (skip - 1) cs
      else if \<not> prev \<and> ci_prefix w (c # cs) \<and> at_word_end (drop (length w) (c # cs))
      then remove_word w (is_word c) (length w - 1) cs
      else c # remove_word w (is_word c) 0 cs)"

definition noise_words :: "string list" where
  "noise_words = [''Jobs'', ''Careers'', ''Ltd'', ''Limited'', ''Inc'', ''Corp'', ''Corporation'', ''PLC'', ''LLC'']"

definition clean_company_name :: "string \<Rightarrow> string option" where
  "clean_company_name nm =
     (if nm = [] then None
      else
        let stripped = strip (fold (\<lambda>w s. remove_word w False 0 s) noise_words nm) in
        if length stripped < 2 then None
        else if \<not> list_ex is_alpha stripped then None
        else Some stripped)"

text \<open>
  \<open>re.search\<close> for the patterns of the extractor, each of the shape: one of several
  literal alternatives, a greedy captured run of characters other than a stop character,
  and a condition on what follows the run. The leftmost position that matches wins, and
  the captured group is the whole run (no shorter run can match, since it is followed by a
  character of the run).
\<close>

record url_pattern =
  literals :: "string list"
  stop :: char
  tail_ok :: "string \<Rightarrow> bool"

definition match_here :: "url_pattern \<Rightarrow> string \<Rightarrow> string option" where
  "match_here p s =
     (case find (\<lambda>l. prefix l s) (literals p) of
        None \<Rightarrow> None
      | Some l \<Rightarrow>
          let rest = drop (length l) s;
              g = takeWhile (\<lambda>c. c \<noteq> stop p) rest
          in if g \<noteq> [] \<and> tail_ok p (dropWhile (\<lambda>c. c \<noteq> stop p) rest) then Some g else None)"

fun re_search :: "url_pattern \<Rightarrow> string \<Rightarrow> string option" where
  "re_search p [] = None"
| "re_search p (c # cs) =
     (case match_here p (c # cs) of Some g \<Rightarrow> Some g | None \<Rightarrow> re_search p cs)"

text \<open>What may follow the company of a LinkedIn company page:
  \<open>/?(?:jobs|about)?$\<close>, where \<open>$\<close> also matches before a final line break.\<close>

definition linkedin_tail :: "string \<Rightarrow> bool" where
  "linkedin_tail s =
     (s = [] \<or> s \<in> set [''/'', [CHR ''/'', CHR 0x0A], ''/jobs'', ''/jobs'' @ [CHR 0x0A],
                         ''/about'', ''/about'' @ [CHR 0x0A]])"

definition url_patterns :: "url_pattern list" where
  "url_patterns =
     [\<lparr>literals = [''linkedin.com/company/''], stop = CHR ''/'', tail_ok = linkedin_tail\<rparr>,
      \<lparr>literals = [''indeed.com/cmp/'', ''indeed.co.uk/cmp/''], stop = CHR ''/'', tail_ok = (\<lambda>s. True)\<rparr>,
      \<lparr>literals = [''glassdoor.com/Overview/Working-at-'', ''glassdoor.co.uk/Overview/Working-at-''],
        stop = CHR ''-'', tail_ok = prefix ''-''\<rparr>,
      \<lparr>literals = [''reed.co.uk/company/''], stop = CHR ''/'', tail_ok = (\<lambda>s. True)\<rparr>,
      \<lparr>literals = [''totaljobs.com/company/''], stop = CHR ''/'', tail_ok = (\<lambda>s. True)\<rparr>]"

fun try_patterns :: "url_pattern list \<Rightarrow> string \<Rightarrow> string option" where
  "try_patterns [] url_lower = None"
| "try_patterns (p # ps) url_lower =
     (case re_search p url_lower of
        None \<Rightarrow> try_patterns ps url_lower
      | Some g \<Rightarrow>
          (case clean_company_name (title (replace_dash g)) of
             Some cleaned \<Rightarrow> Some cleaned
           | None \<Rightarrow> try_patterns ps url_lower))"

text \<open>\<open>re.match(r'^([^.]+)\.(?:careers?|jobs|apply|workday)\.', domain)\<close>.\<close>

definition subdomain_match :: "string \<Rightarrow> string option" where
  "subdomain_match domain =
     (let g = takeWhile (\<lambda>c. c \<noteq> CHR ''.'') domain;
          rest = dropWhile (\<lambda>c. c \<noteq> CHR ''.'') domain
      in if g \<noteq> [] \<and>
            list_ex (\<lambda>l. prefix l rest) [''.career.'', ''.careers.'', ''.jobs.'', ''.apply.'', ''.workday.'']
         then Some g else None)"

definition subdomain_company :: "string \<Rightarrow> string option" where
  "subdomain_company domain =
     (case subdomain_match domain of
        None \<Rightarrow> None
      | Some g \<Rightarrow> clean_company_name (title g))"

definition unreliable_patterns :: "string list" where
  "unreliable_patterns =
     [''indeed.com/viewjob'', ''indeed.co.uk/viewjob'', ''linkedin.com/jobs/view'',
      ''glassdoor.com/job'', ''reed.co.uk/jobs/'']"

definition extract_company_from_url :: "(string \<Rightarrow> bool) \<Rightarrow> string \<Rightarrow> py_error + string option" where
  "extract_company_from_url host_ok url =
     (let url_lower = lower url in
      case urlparse_netloc host_ok url of
        Inl e \<Rightarrow> Inl e
      | Inr netloc \<Rightarrow>
          let domain = lower netloc in
          (case known_company domain of
             Some company \<Rightarrow> Inr (Some company)
           | None \<Rightarrow>
               (case try_patterns url_patterns url_lower of
                  Some cleaned \<Rightarrow> Inr (Some cleaned)
                | None \<Rightarrow>
                    (case subdomain_company domain of
                       Some cleaned \<Rightarrow> Inr (Some cleaned)
                     | None \<Rightarrow>
                         if list_ex (\<lambda>p. is_substring p url_lower) unreliable_patterns
                         then Inr None
                         else Inr None))))"

section \<open>Example data\<close>

text \<open>Rows of a CSV file with the two columns \<open>Organisation Name\<close> and \<open>Town/City\<close>, the
  sponsor records the loader builds from them, and an iteration order of sets.\<close>

definition mk_row :: "string \<Rightarrow> string \<Rightarrow> row" where
  "mk_row org town = [(''Organisation Name'', org), (''Town/City'', town)]"

definition mk_sponsor :: "string \<Rightarrow> string \<Rightarrow> sponsor" where
  "mk_sponsor org town = \<lparr>name = org, city = town, county = [], rating = [], route = []\<rparr>"

definition rank0 :: "string \<Rightarrow> nat" where
  "rank0 s = 0"

definition any_host :: "string \<Rightarrow> bool" where
  "any_host h = True"


section \<open>Auxiliary predicates of the proofs\<close>

text \<open>A string in which every whitespace character is a single space between two
  other characters.\<close>

fun collapsed :: "string \<Rightarrow> bool" where
  "collapsed [] = True"
| "collapsed [c] = (is_space c \<longrightarrow> c = CHR '' '')"
| "collapsed (c # d # cs) =
     ((is_space c \<longrightarrow> c = CHR '' '' \<and> \<not> is_space d) \<and> collapsed (d # cs))"

text \<open>The invariant of a registry built by the loader.\<close>

definition reg_inv :: "registry \<Rightarrow> bool" where
  "reg_inv reg \<longleftrightarrow>
     distinct (map fst (name_to_sponsors reg)) \<and>
     (\<forall>k sps. map_of (name_to_sponsors reg) k = Some sps \<longrightarrow>
        normalize k = k \<and> (\<forall>sp\<in>set sps. normalize (name sp) = k)) \<and>
     (\<forall>w names. map_of (word_index reg) w = Some names \<longrightarrow>
        (\<forall>n\<in>set names. map_of (name_to_sponsors reg) n \<noteq> None)) \<and>
     (\<forall>sp\<in>set (sponsors reg). \<exists>sps. map_of (name_to_sponsors reg) (normalize (name sp)) = Some sps \<and> sp \<in> set sps)"

section \<open>The normalizer is idempotent\<close>

lemma lower_char_idem: "lower_char (lower_char c) = lower_char c"
  by (auto simp: lower_char_def is_upper_def cp_def)

lemma lower_char_space: "lower_char (CHR '' '') = CHR '' ''"
  by (simp add: lower_char_def is_upper_def cp_def)

lemma is_space_space: "is_space (CHR '' '')"
  by (simp add: is_space_def cp_def)


lemma collapse_ws_head:
  "\<not> is_space c \<Longrightarrow> collapse_ws (c # cs) = c # collapse_ws cs"
  by simp

lemma collapsed_Cons_nonspace:
  "collapsed t \<Longrightarrow> \<not> is_space c \<Longrightarrow> collapsed (c # t)"
  by (cases t) auto

lemma collapsed_Cons_space:
  "collapsed t \<Longrightarrow> t = [] \<or> \<not> is_space (hd t) \<Longrightarrow> collapsed (CHR '' '' # t)"
  by (cases t) auto

lemma hd_collapse_ws:
  "s \<noteq> [] \<Longrightarrow> \<not> is_space (hd s) \<Longrightarrow> collapse_ws s \<noteq> [] \<and> hd (collapse_ws s) = hd s"
  by (cases s) auto

lemma collapsed_collapse_ws: "collapsed (collapse_ws s)"
proof (induction s rule: collapse_ws.induct)
  case 1
  show ?case by simp
next
  case (2 c cs)
  show ?case
  proof (cases "is_space c")
    case True
    let ?r = "dropWhile is_space cs"
    have hd: "collapse_ws ?r = [] \<or> \<not> is_space (hd (collapse_ws ?r))"
    proof (cases "?r = []")
      case True
      then show ?thesis by (metis collapse_ws.simps(1))
    next
      case False
      then have "\<not> is_space (hd ?r)" by (simp add: hd_dropWhile)
      with False show ?thesis using hd_collapse_ws by auto
    qed
    from True 2 have "collapsed (collapse_ws ?r)" by simp
    with hd True show ?thesis by (simp add: collapsed_Cons_space)
  next
    case False
    with 2 show ?thesis by (simp add: collapsed_Cons_nonspace)
  qed
qed

lemma collapse_ws_collapsed: "collapsed s \<Longrightarrow> collapse_ws s = s"
  by (induction s rule: collapsed.induct) auto

lemma collapsed_append: "collapsed (xs @ ys) \<Longrightarrow> collapsed xs \<and> collapsed ys"
proof (induction xs rule: collapsed.induct)
  case 1
  then show ?case by simp
next
  case (2 c)
  then show ?case by (cases ys) auto
next
  case (3 c d cs)
  then show ?case by auto
qed

lemma strip_with_decomp: "\<exists>p q. s = p @ strip_with P s @ q"
proof -
  let ?t = "dropWhile P s"
  have "s = takeWhile P s @ ?t" by simp
  moreover have "rev ?t = takeWhile P (rev ?t) @ dropWhile P (rev ?t)" by simp
  then have "?t = rev (dropWhile P (rev ?t)) @ rev (takeWhile P (rev ?t))"
    by (metis rev_append rev_rev_ident)
  ultimately have "s = takeWhile P s @ strip_with P s @ rev (takeWhile P (rev ?t))"
    by (simp add: strip_with_def)
  then show ?thesis by blast
qed

lemma collapsed_strip: "collapsed s \<Longrightarrow> collapsed (strip s)"
proof -
  assume c: "collapsed s"
  obtain p q where "s = p @ strip s @ q" using strip_with_decomp[of s is_space] by (auto simp: strip_def)
  with c show ?thesis by (metis collapsed_append)
qed

lemma set_strip_with: "set (strip_with P s) \<subseteq> set s"
  using strip_with_decomp[of s P] by (metis Un_iff set_append subsetI)

lemma dropWhile_rev_dropWhile:
  "dropWhile P (rev (dropWhile P (rev (dropWhile P s)))) = rev (dropWhile P (rev (dropWhile P s)))"
proof -
  let ?t = "dropWhile P s"
  let ?u = "rev (dropWhile P (rev ?t))"
  show "dropWhile P ?u = ?u"
  proof (cases "?u = []")
    case True
    then show ?thesis by (metis dropWhile.simps(1))
  next
    case False
    obtain q where tq: "?t = ?u @ q"
      by (metis rev_append rev_rev_ident takeWhile_dropWhile_id)
    with False have "hd ?u = hd ?t" by (metis hd_append2)
    moreover from False tq have "?t \<noteq> []" by (metis append_is_Nil_conv)
    then have "\<not> P (hd ?t)" by (rule hd_dropWhile)
    ultimately have "\<not> P (hd ?u)" by simp
    with False show ?thesis by (cases ?u) auto
  qed
qed

lemma strip_with_idem: "strip_with P (strip_with P s) = strip_with P s"
  unfolding strip_with_def by (simp add: dropWhile_rev_dropWhile)

lemma set_collapse_ws: "set (collapse_ws s) \<subseteq> insert (CHR '' '') (set s)"
proof (induction s rule: collapse_ws.induct)
  case 1
  show ?case by simp
next
  case (2 c cs)
  have "set (dropWhile is_space cs) \<subseteq> set cs" by (simp add: set_dropWhileD subsetI)
  with 2 show ?case by (cases "is_space c") auto
qed

lemma normalize_chars:
  assumes "c \<in> set (normalize x)"
  shows "lower_char c = c \<and> (is_word c \<or> is_space c)"
proof -
  let ?z = "filter (\<lambda>c. is_word c \<or> is_space c) (lower x)"
  from assms have "c \<in> set (collapse_ws ?z)"
    using set_strip_with[of is_space "collapse_ws ?z"] by (auto simp: normalize_def strip_def)
  then have "c = CHR '' '' \<or> c \<in> set ?z" using set_collapse_ws[of ?z] by auto
  then show ?thesis
  proof
    assume "c = CHR '' ''"
    then show ?thesis by (simp add: lower_char_space is_space_space)
  next
    assume "c \<in> set ?z"
    then show ?thesis by (auto simp: lower_def lower_char_idem)
  qed
qed

lemma normalize_idem: "normalize (normalize x) = normalize x"
proof -
  let ?y = "normalize x"
  have 1: "lower ?y = ?y"
    unfolding lower_def using normalize_chars[of _ x] by (simp add: map_idI)
  have 2: "filter (\<lambda>c. is_word c \<or> is_space c) ?y = ?y"
    using normalize_chars[of _ x] by (simp add: filter_id_conv)
  have 3: "collapsed ?y"
    unfolding normalize_def by (simp add: collapsed_strip collapsed_collapse_ws)
  have 4: "strip ?y = ?y"
    unfolding normalize_def strip_def by (simp add: strip_with_idem)
  have "normalize ?y = strip (collapse_ws ?y)"
    by (simp add: normalize_def[of ?y] 1 2)
  also have "\<dots> = ?y" by (simp add: collapse_ws_collapsed[OF 3] 4)
  finally show ?thesis .
qed

section \<open>Invariant of the loaded registry\<close>

lemma reg_inv_distinct: "reg_inv reg \<Longrightarrow> distinct (map fst (name_to_sponsors reg))"
  by (simp add: reg_inv_def)

lemma reg_inv_key: "reg_inv reg \<Longrightarrow> map_of (name_to_sponsors reg) k = Some sps \<Longrightarrow> normalize k = k"
  unfolding reg_inv_def by blast

lemma reg_inv_record:
  "reg_inv reg \<Longrightarrow> map_of (name_to_sponsors reg) k = Some sps \<Longrightarrow> sp \<in> set sps \<Longrightarrow> normalize (name sp) = k"
  unfolding reg_inv_def by blast

lemma reg_inv_word:
  "reg_inv reg \<Longrightarrow> map_of (word_index reg) w = Some names \<Longrightarrow> n \<in> set names
     \<Longrightarrow> \<exists>sps. map_of (name_to_sponsors reg) n = Some sps"
  unfolding reg_inv_def by blast

lemma reg_inv_sponsor:
  "reg_inv reg \<Longrightarrow> sp \<in> set (sponsors reg)
     \<Longrightarrow> \<exists>sps. map_of (name_to_sponsors reg) (normalize (name sp)) = Some sps \<and> sp \<in> set sps"
  unfolding reg_inv_def by blast

lemma set_set_add: "set (set_add x xs) = insert x (set xs)"
  by (auto simp: set_add_def)

lemma distinct_set_add: "distinct xs \<Longrightarrow> distinct (set_add x xs)"
  by (auto simp: set_add_def)

lemma set_set_update: "set (set_update xs ys) = set xs \<union> set ys"
  unfolding set_update_def by (induction ys arbitrary: xs) (auto simp: set_set_add)

lemma distinct_set_update: "distinct xs \<Longrightarrow> distinct (set_update xs ys)"
  unfolding set_update_def by (induction ys arbitrary: xs) (auto simp: distinct_set_add)

lemma index_word_names:
  assumes "map_of (index_word normalized word wi) w = Some names" and "n \<in> set names"
  shows "n = normalized \<or> (\<exists>old. map_of wi w = Some old \<and> n \<in> set old)"
proof (cases "length word > 2")
  case False
  with assms show ?thesis by (simp add: index_word_def)
next
  case True
  show ?thesis
  proof (cases "map_of wi word")
    case None
    with True have "map_of (index_word normalized word wi) = (map_of wi)(word \<mapsto> set_add normalized [])"
      by (simp add: index_word_def update_conv')
    with assms show ?thesis by (cases "w = word") (auto simp: set_set_add)
  next
    case (Some old)
    with True have "map_of (index_word normalized word wi) = (map_of wi)(word \<mapsto> set_add normalized old)"
      by (simp add: index_word_def update_conv')
    with assms Some show ?thesis by (cases "w = word") (auto simp: set_set_add)
  qed
qed

lemma fold_index_word_names:
  assumes "map_of (fold (index_word normalized) ws wi) w = Some names" and "n \<in> set names"
  shows "n = normalized \<or> (\<exists>old. map_of wi w = Some old \<and> n \<in> set old)"
  using assms
proof (induction ws arbitrary: wi)
  case Nil
  then show ?case by auto
next
  case (Cons a ws)
  from Cons.IH[of "index_word normalized a wi"] Cons.prems
  have "n = normalized \<or> (\<exists>old. map_of (index_word normalized a wi) w = Some old \<and> n \<in> set old)"
    by simp
  then show ?case
  proof
    assume "n = normalized"
    then show ?thesis by simp
  next
    assume "\<exists>old. map_of (index_word normalized a wi) w = Some old \<and> n \<in> set old"
    then obtain old where o: "map_of (index_word normalized a wi) w = Some old" "n \<in> set old"
      by blast
    from index_word_names[OF o] show ?thesis .
  qed
qed

lemma reg_inv_empty: "reg_inv empty_registry"
  by (simp add: reg_inv_def empty_registry_def)

lemma reg_inv_add_row:
  assumes inv: "reg_inv reg"
  shows "reg_inv (add_row r reg)"
proof (cases "cell r ''Organisation Name'' = []")
  case True
  with inv show ?thesis by (simp add: add_row_def)
next
  case False
  define sp where "sp = \<lparr>name = cell r ''Organisation Name'', city = cell r ''Town/City'',
     county = cell r ''County'', rating = cell r ''Type & Rating'', route = cell r ''Route''\<rparr>"
  define N where "N = normalize (cell r ''Organisation Name'')"
  define v where "v = (case map_of (name_to_sponsors reg) N of None \<Rightarrow> [sp] | Some sps \<Rightarrow> sps @ [sp])"
  define n2s where "n2s = AList.update N v (name_to_sponsors reg)"
  define wi where "wi = fold (index_word N) (split N) (word_index reg)"
  have n2s_alt: "(case map_of (name_to_sponsors reg) N of
                     None \<Rightarrow> AList.update N [sp] (name_to_sponsors reg)
                   | Some sps \<Rightarrow> AList.update N (sps @ [sp]) (name_to_sponsors reg)) = n2s"
    by (simp add: n2s_def v_def split: option.splits)
  have eq: "add_row r reg = \<lparr>sponsors = sponsors reg @ [sp], name_to_sponsors = n2s, word_index = wi\<rparr>"
    unfolding add_row_def Let_def using False
    by (simp only: if_False sp_def[symmetric] N_def[symmetric] n2s_alt wi_def[symmetric])
  have nsp: "normalize (name sp) = N" by (simp add: sp_def N_def)
  have NN: "normalize N = N" by (simp add: N_def normalize_idem)
  have m: "map_of n2s = (map_of (name_to_sponsors reg))(N \<mapsto> v)"
    by (simp add: n2s_def update_conv')
  have d: "distinct (map fst n2s)"
    using reg_inv_distinct[OF inv] by (simp add: n2s_def distinct_update)
  have vset: "\<forall>x\<in>set v. normalize (name x) = N"
  proof (cases "map_of (name_to_sponsors reg) N")
    case None
    then show ?thesis using nsp by (simp add: v_def)
  next
    case (Some sps)
    then show ?thesis using nsp reg_inv_record[OF inv Some] by (auto simp: v_def)
  qed
  have spv: "sp \<in> set v" by (simp add: v_def split: option.splits)
  have old_sub: "\<And>sps. map_of (name_to_sponsors reg) N = Some sps \<Longrightarrow> set sps \<subseteq> set v"
    by (auto simp: v_def)
  have mono: "\<And>n sps. map_of (name_to_sponsors reg) n = Some sps \<Longrightarrow> \<exists>sps'. map_of n2s n = Some sps'"
    by (simp add: m)
  have p2: "\<forall>k sps. map_of n2s k = Some sps \<longrightarrow>
        normalize k = k \<and> (\<forall>x\<in>set sps. normalize (name x) = k)"
  proof (intro allI impI)
    fix k sps assume a: "map_of n2s k = Some sps"
    show "normalize k = k \<and> (\<forall>x\<in>set sps. normalize (name x) = k)"
    proof (cases "k = N")
      case True
      with a have "sps = v" by (simp add: m)
      with True NN vset show ?thesis by simp
    next
      case False
      with a have b: "map_of (name_to_sponsors reg) k = Some sps" by (simp add: m)
      show ?thesis using reg_inv_key[OF inv b] reg_inv_record[OF inv b] by blast
    qed
  qed
  have p3: "\<forall>w names. map_of wi w = Some names \<longrightarrow> (\<forall>n\<in>set names. map_of n2s n \<noteq> None)"
  proof (intro allI impI ballI)
    fix w names n
    assume a: "map_of wi w = Some names" "n \<in> set names"
    from fold_index_word_names[OF a(1)[unfolded wi_def] a(2)]
    have "n = N \<or> (\<exists>old. map_of (word_index reg) w = Some old \<and> n \<in> set old)" .
    then show "map_of n2s n \<noteq> None"
    proof
      assume "n = N" then show ?thesis by (simp add: m)
    next
      assume "\<exists>old. map_of (word_index reg) w = Some old \<and> n \<in> set old"
      then obtain old where "map_of (word_index reg) w = Some old" "n \<in> set old" by blast
      from reg_inv_word[OF inv this] obtain sps where "map_of (name_to_sponsors reg) n = Some sps" ..
      from mono[OF this] show ?thesis by auto
    qed
  qed
  have p4: "\<forall>x\<in>set (sponsors reg @ [sp]). \<exists>sps. map_of n2s (normalize (name x)) = Some sps \<and> x \<in> set sps"
  proof
    fix x assume "x \<in> set (sponsors reg @ [sp])"
    then consider "x = sp" | "x \<in> set (sponsors reg)" by auto
    then show "\<exists>sps. map_of n2s (normalize (name x)) = Some sps \<and> x \<in> set sps"
    proof cases
      case 1
      then show ?thesis using spv nsp by (simp add: m)
    next
      case 2
      from reg_inv_sponsor[OF inv 2] obtain sps where s: "map_of (name_to_sponsors reg) (normalize (name x)) = Some sps" "x \<in> set sps"
        by blast
      show ?thesis
      proof (cases "normalize (name x) = N")
        case True
        with s old_sub have "x \<in> set v" by auto
        with True show ?thesis by (simp add: m)
      next
        case False
        with s show ?thesis by (simp add: m)
      qed
    qed
  qed
  show ?thesis
    unfolding eq reg_inv_def using d p2 p3 p4 by simp
qed

lemma reg_inv_fold: "reg_inv reg \<Longrightarrow> reg_inv (fold add_row rows reg)"
  by (induction rows arbitrary: reg) (simp_all add: reg_inv_add_row)

lemma reg_inv_index_rows: "reg_inv (index_rows rows)"
  unfolding index_rows_def by (rule reg_inv_fold[OF reg_inv_empty])

section \<open>The stages of the search\<close>

lemma simple_similarity_le_1: "simple_similarity a b \<le> 1"
proof -
  let ?a = "remdups (split (normalize a))"
  let ?b = "remdups (split (normalize b))"
  let ?i = "length (filter (\<lambda>w. w \<in> set ?b) ?a)"
  let ?u = "length (remdups (?a @ ?b))"
  have "?i \<le> length ?a" by (rule length_filter_le)
  also have "length ?a = card (set ?a)" by (simp add: length_remdups_card_conv)
  also have "\<dots> \<le> card (set (?a @ ?b))" by (rule card_mono) auto
  also have "\<dots> = ?u" by (simp only: length_remdups_card_conv)
  finally have iu: "?i \<le> ?u" .
  have "?u > 0 \<Longrightarrow> (of_nat ?i :: rat) / of_nat ?u \<le> 1"
    using iu by (simp add: divide_le_eq_1)
  then show ?thesis
    unfolding simple_similarity_def Let_def by (simp del: remdups_append)
qed

lemma boost_pair_le_1: "sc \<le> 1 \<Longrightarrow> boost_pair qt nt sc \<le> 1"
  by (simp add: boost_pair_def Let_def)

lemma fold_boost_pair_le_1: "sc \<le> 1 \<Longrightarrow> fold (boost_pair qt) nts sc \<le> 1"
  by (induction nts arbitrary: sc) (simp_all add: boost_pair_le_1)

lemma boost_le_1: "sc \<le> 1 \<Longrightarrow> boost qts nts sc \<le> 1"
  unfolding boost_def by (induction qts arbitrary: sc) (simp_all add: fold_boost_pair_le_1)

lemma candidate_score_le_1: "candidate_score qn nm \<le> 1"
  unfolding candidate_score_def by (rule boost_le_1[OF simple_similarity_le_1])

lemma exact_step_cases:
  "exact_step sp st = (if name sp \<notin> snd st then (fst st @ [(sp, 1)], insert (name sp) (snd st)) else st)"
  by (simp add: exact_step_def Let_def)

lemma exact_fold:
  "\<exists>ext. fst (fold exact_step sps st) = fst st @ ext \<and>
         (\<forall>m\<in>set ext. snd m = 1 \<and> fst m \<in> set sps) \<and> length ext \<le> length sps \<and>
         snd (fold exact_step sps st) = snd st \<union> name ` set sps \<and>
         (\<forall>sp. find (\<lambda>x. name x = name sp) sps = Some sp \<and> name sp \<notin> snd st \<longrightarrow> (sp, 1) \<in> set ext)"
proof (induction sps arbitrary: st)
  case Nil
  show ?case by simp
next
  case (Cons a sps)
  let ?st = "exact_step a st"
  from Cons[of ?st] obtain ext where e:
    "fst (fold exact_step sps ?st) = fst ?st @ ext"
    "\<forall>m\<in>set ext. snd m = 1 \<and> fst m \<in> set sps" "length ext \<le> length sps"
    "snd (fold exact_step sps ?st) = snd ?st \<union> name ` set sps"
    "\<forall>sp. find (\<lambda>x. name x = name sp) sps = Some sp \<and> name sp \<notin> snd ?st \<longrightarrow> (sp, 1) \<in> set ext"
    by blast
  show ?case
  proof (cases "name a \<in> snd st")
    case True
    then have s: "?st = st" by (simp add: exact_step_cases)
    have "\<forall>sp. find (\<lambda>x. name x = name sp) (a # sps) = Some sp \<and> name sp \<notin> snd st \<longrightarrow> (sp, 1) \<in> set ext"
      using e(5) True s by auto
    with e s True show ?thesis by (intro exI[of _ ext]) auto
  next
    case False
    then have s: "?st = (fst st @ [(a, 1)], insert (name a) (snd st))" by (simp add: exact_step_cases)
    have "\<forall>sp. find (\<lambda>x. name x = name sp) (a # sps) = Some sp \<and> name sp \<notin> snd st \<longrightarrow> (sp, 1) \<in> set ((a, 1) # ext)"
      using e(5) s by auto
    with e s show ?thesis by (intro exI[of _ "(a, 1) # ext"]) auto
  qed
qed

lemma substring_step_cases:
  "substring_step qn (nm, sps) st =
     (if nm \<in> snd st then st
      else if is_substring qn nm then (fst st @ map (\<lambda>sp. (sp, 9 / 10)) sps, insert nm (snd st))
      else if length qn > 5 \<and> is_substring nm qn then (fst st @ map (\<lambda>sp. (sp, 85 / 100)) sps, insert nm (snd st))
      else st)"
  by (simp add: substring_step_def Let_def)

lemma substring_step_ext:
  "\<exists>ext. fst (substring_step qn e st) = fst st @ ext \<and> (\<forall>m\<in>set ext. snd m \<le> 1) \<and>
         snd st \<subseteq> snd (substring_step qn e st) \<and> snd (substring_step qn e st) \<subseteq> insert (fst e) (snd st)"
  by (cases e) (auto simp: substring_step_cases)

lemma substring_fold_ext:
  "\<exists>ext. fst (fold (substring_step qn) es st) = fst st @ ext \<and> (\<forall>m\<in>set ext. snd m \<le> 1) \<and>
         snd st \<subseteq> snd (fold (substring_step qn) es st) \<and>
         snd (fold (substring_step qn) es st) \<subseteq> snd st \<union> fst ` set es"
proof (induction es arbitrary: st)
  case Nil
  show ?case by simp
next
  case (Cons e es)
  let ?st = "substring_step qn e st"
  from substring_step_ext[of qn e st] obtain x1 where 1:
    "fst ?st = fst st @ x1" "\<forall>m\<in>set x1. snd m \<le> 1" "snd st \<subseteq> snd ?st" "snd ?st \<subseteq> insert (fst e) (snd st)"
    by blast
  from Cons[of ?st] obtain x2 where 2:
    "fst (fold (substring_step qn) es ?st) = fst ?st @ x2" "\<forall>m\<in>set x2. snd m \<le> 1"
    "snd ?st \<subseteq> snd (fold (substring_step qn) es ?st)"
    "snd (fold (substring_step qn) es ?st) \<subseteq> snd ?st \<union> fst ` set es"
    by blast
  show ?case
    using 1 2 by (intro exI[of _ "x1 @ x2"]) auto
qed

lemma substring_fold_mem:
  assumes "distinct (map fst es)" "(M, sps) \<in> set es" "M \<notin> snd st" "is_substring qn M" "sp \<in> set sps"
  shows "(sp, 9 / 10) \<in> set (fst (fold (substring_step qn) es st))"
  using assms
proof (induction es arbitrary: st)
  case Nil
  then show ?case by simp
next
  case (Cons e es)
  let ?st = "substring_step qn e st"
  from substring_fold_ext[of qn es ?st] obtain x2 where 2:
    "fst (fold (substring_step qn) es ?st) = fst ?st @ x2" by blast
  show ?case
  proof (cases "e = (M, sps)")
    case True
    with Cons.prems have "(sp, 9 / 10) \<in> set (fst ?st)" by (simp add: substring_step_cases)
    with 2 show ?thesis by simp
  next
    case False
    with Cons.prems have in_es: "(M, sps) \<in> set es" by simp
    from Cons.prems have "fst e \<noteq> M" using in_es by (metis distinct.simps(2) fst_conv image_eqI list.simps(9) set_map)
    with substring_step_ext[of qn e st] Cons.prems(3) have "M \<notin> snd ?st" by auto
    with Cons.IH[of ?st] in_es Cons.prems show ?thesis by simp
  qed
qed

lemma score_stage_ok:
  assumes "\<forall>n\<in>set cands. \<exists>sps. map_of (name_to_sponsors reg) n = Some sps"
  shows "\<exists>st' ext. score_stage reg qn t cands st = Inr st' \<and> fst st' = fst st @ ext \<and> (\<forall>m\<in>set ext. snd m \<le> 1)"
  using assms
proof (induction cands arbitrary: st)
  case Nil
  show ?case by simp
next
  case (Cons nm rest)
  from Cons.prems obtain sps where sps: "map_of (name_to_sponsors reg) nm = Some sps" by auto
  from Cons.prems have rest: "\<forall>n\<in>set rest. \<exists>sps. map_of (name_to_sponsors reg) n = Some sps" by simp
  show ?case
  proof (cases "nm \<notin> snd st \<and> t \<le> candidate_score qn nm")
    case False
    then have "score_stage reg qn t (nm # rest) st = score_stage reg qn t rest st"
      by (auto simp: Let_def)
    with Cons.IH[OF rest, of st] show ?thesis by simp
  next
    case True
    let ?st = "(fst st @ map (\<lambda>sp. (sp, candidate_score qn nm)) sps, insert nm (snd st))"
    from True sps have eq: "score_stage reg qn t (nm # rest) st = score_stage reg qn t rest ?st"
      by (simp add: Let_def)
    from Cons.IH[OF rest, of ?st] obtain st' ext where
      e: "score_stage reg qn t rest ?st = Inr st'" "fst st' = fst ?st @ ext" "\<forall>m\<in>set ext. snd m \<le> 1"
      by blast
    have "\<forall>m\<in>set (map (\<lambda>sp. (sp, candidate_score qn nm)) sps @ ext). snd m \<le> 1"
      using e(3) candidate_score_le_1 by auto
    with e eq show ?thesis
      by (intro exI[of _ st'] exI[of _ "map (\<lambda>sp. (sp, candidate_score qn nm)) sps @ ext"]) simp
  qed
qed

lemma score_stage_mono:
  assumes "distinct cands" "t1 \<le> t2" "snd st1 \<inter> set cands = snd st2 \<inter> set cands"
    "score_stage reg qn t1 cands st1 = Inr st1'" "score_stage reg qn t2 cands st2 = Inr st2'"
  shows "length (fst st2') + length (fst st1) \<le> length (fst st1') + length (fst st2)"
  using assms
proof (induction cands arbitrary: st1 st2)
  case Nil
  then show ?case by simp
next
  case (Cons nm rest)
  let ?sc = "candidate_score qn nm"
  from Cons.prems have d: "distinct rest" "nm \<notin> set rest" by auto
  from Cons.prems(3) have mem: "nm \<in> snd st1 \<longleftrightarrow> nm \<in> snd st2" by auto
  from Cons.prems(3) d have int: "snd st1 \<inter> set rest = snd st2 \<inter> set rest" by auto
  have int_ins: "\<And>A B. A \<inter> set rest = B \<inter> set rest \<Longrightarrow> insert nm A \<inter> set rest = B \<inter> set rest"
    using d(2) by auto
  show ?case
  proof (cases "nm \<in> snd st1")
    case True
    with mem Cons.prems have "score_stage reg qn t1 rest st1 = Inr st1'" "score_stage reg qn t2 rest st2 = Inr st2'"
      by simp_all
    from Cons.IH[OF d(1) Cons.prems(2) int this] show ?thesis .
  next
    case False
    with mem have False2: "nm \<notin> snd st2" by simp
    show ?thesis
    proof (cases "t1 \<le> ?sc")
      case lo: False
      with Cons.prems(2) have hi: "\<not> t2 \<le> ?sc" by simp
      from False False2 lo hi Cons.prems
      have "score_stage reg qn t1 rest st1 = Inr st1'" "score_stage reg qn t2 rest st2 = Inr st2'"
        by (simp_all add: Let_def)
      from Cons.IH[OF d(1) Cons.prems(2) int this] show ?thesis .
    next
      case lo: True
      from False lo Cons.prems(4) obtain sps where sps: "map_of (name_to_sponsors reg) nm = Some sps"
        by (cases "map_of (name_to_sponsors reg) nm") (simp_all add: Let_def)
      let ?a1 = "(fst st1 @ map (\<lambda>sp. (sp, ?sc)) sps, insert nm (snd st1))"
      let ?a2 = "(fst st2 @ map (\<lambda>sp. (sp, ?sc)) sps, insert nm (snd st2))"
      from False lo sps Cons.prems(4) have r1: "score_stage reg qn t1 rest ?a1 = Inr st1'"
        by (simp add: Let_def)
      show ?thesis
      proof (cases "t2 \<le> ?sc")
        case True
        with False2 sps Cons.prems(5) have r2: "score_stage reg qn t2 rest ?a2 = Inr st2'"
          by (simp add: Let_def)
        have "snd ?a1 \<inter> set rest = snd ?a2 \<inter> set rest" using int d(2) by auto
        from Cons.IH[OF d(1) Cons.prems(2) this r1 r2] show ?thesis by simp
      next
        case False
        with False2 Cons.prems(5) have r2: "score_stage reg qn t2 rest st2 = Inr st2'"
          by (simp add: Let_def)
        have "snd ?a1 \<inter> set rest = snd st2 \<inter> set rest" using int d(2) by auto
        from Cons.IH[OF d(1) Cons.prems(2) this r1 r2] show ?thesis by simp
      qed
    qed
  qed
qed

lemma insort_key_front: "\<forall>z\<in>set zs. f x \<le> f z \<Longrightarrow> insort_key f x zs = x # zs"
  by (cases zs) simp_all

lemma sort_key_prefix:
  assumes "\<forall>x\<in>set xs. f x = k" "\<forall>y\<in>set ys. k \<le> f y"
  shows "sort_key f (xs @ ys) = xs @ sort_key f ys"
  using assms
proof (induction xs)
  case Nil
  show ?case by simp
next
  case (Cons x xs)
  then have ih: "sort_key f (xs @ ys) = xs @ sort_key f ys" by simp
  have "\<forall>z\<in>set (xs @ sort_key f ys). f x \<le> f z" using Cons.prems by auto
  from insort_key_front[OF this] ih show ?case by simp
qed

lemma set_sort_by_score: "set (sort_by_score xs) = set xs"
  by (simp add: sort_by_score_def)

lemma length_sort_by_score: "length (sort_by_score xs) = length xs"
  by (simp add: sort_by_score_def)

lemma sort_by_score_prefix:
  assumes "\<forall>m\<in>set xs. snd m = 1" "\<forall>m\<in>set ys. snd m \<le> 1"
  shows "sort_by_score (xs @ ys) = xs @ sort_by_score ys"
  unfolding sort_by_score_def
  by (rule sort_key_prefix[where k = "-1"]) (use assms in auto)

lemma slice_to_all: "int (length xs) \<le> n \<Longrightarrow> slice_to n xs = xs"
  by (simp add: slice_to_def)

lemma slice_to_short: "int (length (slice_to n xs)) < n \<Longrightarrow> slice_to n xs = xs"
  by (auto simp: slice_to_def split: if_splits)

lemma slice_to_prefix: "int (length xs) \<le> n \<Longrightarrow> \<exists>zs. slice_to n (xs @ ys) = xs @ zs"
  by (auto simp: slice_to_def)

lemma length_slice_to_mono: "length xs \<le> length ys \<Longrightarrow> length (slice_to n xs) \<le> length (slice_to n ys)"
  by (auto simp: slice_to_def)

lemma slice_to_1: "slice_to 1 xs = take 1 xs"
  by (simp add: slice_to_def)

lemma candidate_fold:
  "distinct acc \<Longrightarrow>
   distinct (fold (candidate_step reg) ws acc) \<and>
   set (fold (candidate_step reg) ws acc) \<subseteq>
     set acc \<union> {n. \<exists>w names. map_of (word_index reg) w = Some names \<and> n \<in> set names}"
proof (induction ws arbitrary: acc)
  case Nil
  then show ?case by simp
next
  case (Cons w ws)
  let ?acc = "candidate_step reg w acc"
  have d: "distinct ?acc"
    using Cons.prems by (simp add: candidate_step_def distinct_set_update split: option.splits)
  have s: "set ?acc \<subseteq> set acc \<union> {n. \<exists>w names. map_of (word_index reg) w = Some names \<and> n \<in> set names}"
    by (auto simp: candidate_step_def set_set_update split: option.splits)
  from Cons.IH[OF d] s show ?case by auto
qed

lemma candidates_indexed:
  assumes "reg_inv reg" "n \<in> set (set_iter rank (candidate_names reg ws))"
  shows "\<exists>sps. map_of (name_to_sponsors reg) n = Some sps"
proof -
  from assms(2) have "n \<in> set (fold (candidate_step reg) ws [])"
    by (simp add: set_iter_def candidate_names_def)
  with candidate_fold[of "[]" reg ws] obtain w names where
    "map_of (word_index reg) w = Some names" "n \<in> set names" by auto
  from reg_inv_word[OF assms(1) this] show ?thesis .
qed

lemma distinct_candidates: "distinct (set_iter rank (candidate_names reg ws))"
  using candidate_fold[of "[]" reg ws] by (simp add: set_iter_def candidate_names_def)

lemma search_ranked_normalize:
  "search_ranked rank reg (normalize q) t = search_ranked rank reg q t"
  by (simp add: search_ranked_def normalize_idem)

lemma search_normalize: "search rank reg (normalize q) t m = search rank reg q t m"
  by (simp add: search_def search_ranked_normalize)

lemma search_ranked_loaded:
  assumes "reg_inv reg"
  shows "\<exists>ext. search_ranked rank reg q t =
           Inr (sort_by_score (fst (substring_stage reg (normalize q) (exact_stage reg (normalize q) ([], {}))) @ ext))
         \<and> (\<forall>m\<in>set ext. snd m \<le> 1)"
proof -
  let ?qn = "normalize q"
  let ?st2 = "substring_stage reg ?qn (exact_stage reg ?qn ([], {}))"
  let ?cands = "set_iter rank (candidate_names reg (filter (\<lambda>w. length w > 2) (split ?qn)))"
  have "\<forall>n\<in>set ?cands. \<exists>sps. map_of (name_to_sponsors reg) n = Some sps"
    using candidates_indexed[OF assms] by blast
  from score_stage_ok[OF this, of ?qn t ?st2] obtain st' ext where
    e: "score_stage reg ?qn t ?cands ?st2 = Inr st'" "fst st' = fst ?st2 @ ext" "\<forall>m\<in>set ext. snd m \<le> 1"
    by blast
  have "search_ranked rank reg q t = Inr (sort_by_score (fst st'))"
    by (simp add: search_ranked_def Let_def e(1))
  with e show ?thesis by auto
qed

lemma exact_stage_ext:
  "\<exists>ext. fst (exact_stage reg qn ([], {})) = ext \<and> (\<forall>m\<in>set ext. snd m = 1) \<and>
     (\<forall>sps. map_of (name_to_sponsors reg) qn = Some sps \<longrightarrow>
        length ext \<le> length sps \<and>
        (\<forall>sp. find (\<lambda>x. name x = name sp) sps = Some sp \<longrightarrow> (sp, 1) \<in> set ext)) \<and>
     snd (exact_stage reg qn ([], {})) =
       (case map_of (name_to_sponsors reg) qn of None \<Rightarrow> {} | Some sps \<Rightarrow> name ` set sps)"
proof (cases "map_of (name_to_sponsors reg) qn")
  case None
  then show ?thesis by (simp add: exact_stage_def)
next
  case (Some sps)
  from exact_fold[of sps "([], {})"] Some show ?thesis
    by (auto simp: exact_stage_def)
qed

lemma search_structure:
  assumes "reg_inv reg"
  shows "\<exists>ext1 rest. search_ranked rank reg q t = Inr (ext1 @ rest) \<and>
           ext1 = fst (exact_stage reg (normalize q) ([], {})) \<and>
           set (fst (substring_stage reg (normalize q) (exact_stage reg (normalize q) ([], {})))) \<subseteq> set (ext1 @ rest)"
proof -
  let ?qn = "normalize q"
  let ?st1 = "exact_stage reg ?qn ([], {})"
  let ?st2 = "substring_stage reg ?qn ?st1"
  from search_ranked_loaded[OF assms, of rank q t] obtain ext4 where
    r: "search_ranked rank reg q t = Inr (sort_by_score (fst ?st2 @ ext4))" "\<forall>m\<in>set ext4. snd m \<le> 1"
    by blast
  from substring_fold_ext[of ?qn "name_to_sponsors reg" ?st1] obtain ext2 where
    s2: "fst ?st2 = fst ?st1 @ ext2" "\<forall>m\<in>set ext2. snd m \<le> 1"
    by (auto simp: substring_stage_def)
  from exact_stage_ext[of reg ?qn] have s1: "\<forall>m\<in>set (fst ?st1). snd m = 1" by simp
  have "\<forall>m\<in>set (ext2 @ ext4). snd m \<le> 1" using s2(2) r(2) by auto
  from sort_by_score_prefix[OF s1 this]
  have "sort_by_score (fst ?st2 @ ext4) = fst ?st1 @ sort_by_score (ext2 @ ext4)"
    by (simp add: s2(1))
  moreover have "set (fst ?st2) \<subseteq> set (sort_by_score (fst ?st2 @ ext4))"
    by (simp add: set_sort_by_score)
  ultimately show ?thesis using r(1) by (intro exI[of _ "fst ?st1"] exI[of _ "sort_by_score (ext2 @ ext4)"]) simp
qed

section \<open>Deduplication keeps the best match of every company name\<close>

lemma set_alist_update: "set (AList.update k v al) \<subseteq> insert (k, v) (set al)"
  by (induction al) auto

lemma dedup_step_cases:
  "dedup_step m seen = seen \<or> dedup_step m seen = AList.update (name (fst m)) m seen"
  by (simp add: dedup_step_def Let_def split: option.splits)

lemma dedup_fold_distinct:
  "distinct (map fst seen) \<Longrightarrow> distinct (map fst (fold dedup_step rs seen))"
proof (induction rs arbitrary: seen)
  case Nil
  then show ?case by simp
next
  case (Cons m rs)
  from dedup_step_cases[of m seen] Cons.prems have "distinct (map fst (dedup_step m seen))"
    by (auto simp: distinct_update)
  from Cons.IH[OF this] show ?case by simp
qed

lemma dedup_fold_entries:
  assumes "\<forall>e\<in>set seen. fst e = name (fst (snd e)) \<and> snd e \<in> S" "set rs \<subseteq> S"
  shows "\<forall>e\<in>set (fold dedup_step rs seen). fst e = name (fst (snd e)) \<and> snd e \<in> S"
  using assms
proof (induction rs arbitrary: seen)
  case Nil
  then show ?case by simp
next
  case (Cons m rs)
  have "\<forall>e\<in>set (dedup_step m seen). fst e = name (fst (snd e)) \<and> snd e \<in> S"
  proof
    fix e assume e: "e \<in> set (dedup_step m seen)"
    from dedup_step_cases[of m seen] e set_alist_update[of "name (fst m)" m seen]
    have "e \<in> set seen \<or> e = (name (fst m), m)" by auto
    with Cons.prems show "fst e = name (fst (snd e)) \<and> snd e \<in> S" by auto
  qed
  from Cons.IH[OF this] Cons.prems(2) show ?case by simp
qed

lemma dedup_step_best:
  assumes "map_of seen k = Some b"
  shows "\<exists>b'. map_of (dedup_step m seen) k = Some b' \<and> snd b \<le> snd b'"
proof (cases "name (fst m) = k \<and> snd b < snd m")
  case False
  with assms have "map_of (dedup_step m seen) k = Some b"
    by (cases "name (fst m) = k") (auto simp: dedup_step_def Let_def update_conv' split: option.splits)
  then show ?thesis by (intro exI[of _ b]) simp
next
  case True
  with assms have "map_of (dedup_step m seen) k = Some m"
    by (simp add: dedup_step_def Let_def update_conv')
  with True show ?thesis by (intro exI[of _ m]) simp
qed

lemma dedup_step_self:
  "\<exists>b'. map_of (dedup_step m seen) (name (fst m)) = Some b' \<and> snd m \<le> snd b'"
proof (cases "map_of seen (name (fst m))")
  case None
  then have "map_of (dedup_step m seen) (name (fst m)) = Some m"
    by (simp add: dedup_step_def Let_def update_conv')
  then show ?thesis by (intro exI[of _ m]) simp
next
  case (Some b)
  show ?thesis
  proof (cases "snd b < snd m")
    case True
    with Some have "map_of (dedup_step m seen) (name (fst m)) = Some m"
      by (simp add: dedup_step_def Let_def update_conv')
    then show ?thesis by (intro exI[of _ m]) simp
  next
    case False
    with Some have "map_of (dedup_step m seen) (name (fst m)) = Some b"
      by (simp add: dedup_step_def Let_def)
    with False show ?thesis by (intro exI[of _ b]) simp
  qed
qed

lemma dedup_fold_best:
  assumes "map_of seen k = Some b"
  shows "\<exists>b'. map_of (fold dedup_step rs seen) k = Some b' \<and> snd b \<le> snd b'"
  using assms
proof (induction rs arbitrary: seen b)
  case Nil
  then show ?case by simp
next
  case (Cons m rs)
  from dedup_step_best[OF Cons.prems, of m] obtain b1 where
    b1: "map_of (dedup_step m seen) k = Some b1" "snd b \<le> snd b1" by blast
  from Cons.IH[OF b1(1)] obtain b' where "map_of (fold dedup_step rs (dedup_step m seen)) k = Some b'" "snd b1 \<le> snd b'"
    by blast
  with b1(2) show ?case by auto
qed

lemma dedup_fold_covers:
  assumes "m \<in> set rs"
  shows "\<exists>b'. map_of (fold dedup_step rs seen) (name (fst m)) = Some b' \<and> snd m \<le> snd b'"
  using assms
proof (induction rs arbitrary: seen)
  case Nil
  then show ?case by simp
next
  case (Cons a rs)
  show ?case
  proof (cases "m = a")
    case True
    from dedup_step_self[of a seen] obtain b1 where
      b1: "map_of (dedup_step a seen) (name (fst a)) = Some b1" "snd a \<le> snd b1" by blast
    from dedup_fold_best[OF b1(1), of rs] b1(2) True show ?thesis by auto
  next
    case False
    with Cons.prems have "m \<in> set rs" by simp
    from Cons.IH[OF this, of "dedup_step a seen"] show ?thesis by simp
  qed
qed

lemma sort_by_score_sorted: "sorted_wrt (\<lambda>a b. snd b \<le> snd a) (sort_by_score xs)"
proof -
  have "sorted (map (\<lambda>m. - snd m) (sort_by_score xs))"
    unfolding sort_by_score_def by (rule sorted_sort_key)
  then show ?thesis by (simp add: sorted_wrt_map)
qed

lemma distinct_map_sort_by_score:
  "distinct (map f xs) \<Longrightarrow> distinct (map f (sort_by_score xs))"
  by (simp add: distinct_map sort_by_score_def)

section \<open>The search on a loaded registry\<close>

lemma search_never_raises: "\<exists>res. search rank (index_rows rows) q t m = Inr res"
proof -
  from search_ranked_loaded[OF reg_inv_index_rows, of rank rows q t] obtain full where
    "search_ranked rank (index_rows rows) q t = Inr full" by blast
  then show ?thesis by (simp add: search_def)
qed

lemma mset_sort_by_score: "mset (sort_by_score xs) = mset xs"
  by (simp add: sort_by_score_def)

lemma exact_stage_seen_other:
  assumes "reg_inv reg" "map_of (name_to_sponsors reg) M = Some sps" "M \<noteq> qn"
  shows "M \<notin> snd (exact_stage reg qn ([], {}))"
proof
  assume a: "M \<in> snd (exact_stage reg qn ([], {}))"
  from exact_stage_ext[of reg qn] a obtain sps0 x where
    s0: "map_of (name_to_sponsors reg) qn = Some sps0" "x \<in> set sps0" "M = name x"
    by (cases "map_of (name_to_sponsors reg) qn") auto
  from reg_inv_record[OF assms(1) s0(1,2)] s0(3) have "normalize M = qn" by simp
  moreover from reg_inv_key[OF assms(1,2)] have "normalize M = M" .
  ultimately show False using assms(3) by simp
qed

lemma substring_fold_mem_reverse:
  assumes "distinct (map fst es)" "(M, sps) \<in> set es" "M \<notin> snd st"
    "\<not> is_substring qn M" "length qn > 5" "is_substring M qn" "sp \<in> set sps"
  shows "(sp, 85 / 100) \<in> set (fst (fold (substring_step qn) es st))"
  using assms
proof (induction es arbitrary: st)
  case Nil
  then show ?case by simp
next
  case (Cons e es)
  let ?st = "substring_step qn e st"
  from substring_fold_ext[of qn es ?st] obtain x2 where 2:
    "fst (fold (substring_step qn) es ?st) = fst ?st @ x2" by blast
  show ?case
  proof (cases "e = (M, sps)")
    case True
    with Cons.prems have "(sp, 85 / 100) \<in> set (fst ?st)" by (simp add: substring_step_cases)
    with 2 show ?thesis by simp
  next
    case False
    with Cons.prems have in_es: "(M, sps) \<in> set es" by simp
    from Cons.prems have "fst e \<noteq> M" using in_es by (metis distinct.simps(2) fst_conv image_eqI list.simps(9) set_map)
    with substring_step_ext[of qn e st] Cons.prems(3) have "M \<notin> snd ?st" by auto
    with Cons.IH[of ?st] in_es Cons.prems show ?thesis by simp
  qed
qed

lemma substring_stage_in_ranking:
  assumes "map_of (name_to_sponsors (index_rows rows)) M = Some sps" "sp \<in> set sps" "M \<noteq> normalize q"
  shows "\<exists>full. search_ranked rank (index_rows rows) q t = Inr full \<and>
           (is_substring (normalize q) M \<longrightarrow> (sp, 9 / 10) \<in> set full) \<and>
           (\<not> is_substring (normalize q) M \<and> length (normalize q) > 5 \<and> is_substring M (normalize q)
              \<longrightarrow> (sp, 85 / 100) \<in> set full)"
proof -
  let ?reg = "index_rows rows"
  let ?qn = "normalize q"
  let ?st1 = "exact_stage ?reg ?qn ([], {})"
  let ?st2 = "substring_stage ?reg ?qn ?st1"
  have inv: "reg_inv ?reg" by (rule reg_inv_index_rows)
  from search_structure[OF inv, of rank q t] obtain full where
    f: "search_ranked rank ?reg q t = Inr full" "set (fst ?st2) \<subseteq> set full"
    by blast
  have notseen: "M \<notin> snd ?st1" by (rule exact_stage_seen_other[OF inv assms(1,3)])
  have mem: "(M, sps) \<in> set (name_to_sponsors ?reg)" using assms(1) by (rule map_of_SomeD)
  have a: "is_substring ?qn M \<Longrightarrow> (sp, 9 / 10) \<in> set full"
  proof -
    assume "is_substring ?qn M"
    from substring_fold_mem[OF reg_inv_distinct[OF inv] mem notseen this assms(2)]
    have "(sp, 9 / 10) \<in> set (fst ?st2)" by (simp add: substring_stage_def)
    with f(2) show ?thesis by auto
  qed
  have b: "\<not> is_substring ?qn M \<Longrightarrow> length ?qn > 5 \<Longrightarrow> is_substring M ?qn \<Longrightarrow> (sp, 85 / 100) \<in> set full"
  proof -
    assume h: "\<not> is_substring ?qn M" "length ?qn > 5" "is_substring M ?qn"
    from substring_fold_mem_reverse[OF reg_inv_distinct[OF inv] mem notseen h assms(2)]
    have "(sp, 85 / 100) \<in> set (fst ?st2)" by (simp add: substring_stage_def)
    with f(2) show ?thesis by auto
  qed
  show ?thesis
  proof (intro exI[of _ full] conjI impI)
    show "search_ranked rank ?reg q t = Inr full" by (rule f(1))
  next
    assume "is_substring ?qn M" then show "(sp, 9 / 10) \<in> set full" by (rule a)
  next
    assume "\<not> is_substring ?qn M \<and> length ?qn > 5 \<and> is_substring M ?qn"
    then show "(sp, 85 / 100) \<in> set full" using b by blast
  qed
qed

lemma ranking_untruncated:
  "search_ranked rank reg q t = Inr full \<Longrightarrow> search rank reg q t (int (length full)) = Inr full"
  by (simp add: search_def slice_to_all)

text \<open>
  Claim C1, as stated: for any registry entry whose normalized name is \<open>N\<close>,
  \<open>search(N, threshold=1.0)\<close> returns that entry with score 1.0, and every record stored
  under a normalized name equal to the normalized query is returned with score 1.0.
  It fails on a registry with two records of the same company name: the exact stage
  appends one record per company name, so the second record is not returned with
  score 1.0 (the substring stage returns it with 0.9).
\<close>

theorem exact_match_counterexample:
  "mk_sponsor ''Acme'' ''Leeds'' \<in> set (sponsors (index_rows [mk_row ''Acme'' ''London'', mk_row ''Acme'' ''Leeds''])) \<and>
   normalize (name (mk_sponsor ''Acme'' ''Leeds'')) = ''acme'' \<and>
   search rank0 (index_rows [mk_row ''Acme'' ''London'', mk_row ''Acme'' ''Leeds'']) ''acme'' 1 10 =
     Inr [(mk_sponsor ''Acme'' ''London'', 1), (mk_sponsor ''Acme'' ''London'', 9 / 10),
          (mk_sponsor ''Acme'' ''Leeds'', 9 / 10)] \<and>
   (mk_sponsor ''Acme'' ''Leeds'', 1) \<notin>
     set [(mk_sponsor ''Acme'' ''London'', 1 :: rat), (mk_sponsor ''Acme'' ''London'', 9 / 10),
          (mk_sponsor ''Acme'' ''Leeds'', 9 / 10)]"
  by code_simp

text \<open>
  Claim C1, amended: when the normalized query equals an indexed normalized name \<open>N\<close>
  (in particular when the query is \<open>N\<close> itself, which gives the same result as any query
  normalizing to \<open>N\<close>) and \<open>max_results\<close> is at least the number of records stored under
  \<open>N\<close>, then at every threshold and for every iteration order the search returns with
  score 1.0 each record that is the first one stored under \<open>N\<close> with its company name.
\<close>

theorem exact_match_first_of_name:
  assumes "map_of (name_to_sponsors (index_rows rows)) (normalize q) = Some sps"
      and "find (\<lambda>x. name x = name sp) sps = Some sp"
      and "int (length sps) \<le> m"
  shows "\<exists>res. search rank (index_rows rows) q t m = Inr res \<and>
               search rank (index_rows rows) (normalize q) t m = Inr res \<and>
               (sp, 1) \<in> set res"
proof -
  let ?reg = "index_rows rows"
  from search_structure[OF reg_inv_index_rows, of rank rows q t] obtain rest where
    r: "search_ranked rank ?reg q t = Inr (fst (exact_stage ?reg (normalize q) ([], {})) @ rest)"
    by blast
  let ?ext1 = "fst (exact_stage ?reg (normalize q) ([], {}))"
  from exact_stage_ext[of ?reg "normalize q"] assms(1,2)
  have e: "length ?ext1 \<le> length sps" "(sp, 1) \<in> set ?ext1" by auto
  with assms(3) have "int (length ?ext1) \<le> m" by simp
  from slice_to_prefix[OF this, of rest] obtain zs where "slice_to m (?ext1 @ rest) = ?ext1 @ zs" ..
  with r e(2) have "search rank ?reg q t m = Inr (?ext1 @ zs)" "(sp, 1) \<in> set (?ext1 @ zs)"
    by (simp_all add: search_def)
  then show ?thesis by (simp add: search_normalize)
qed

theorem exact_match_first_of_name_witness:
  "map_of (name_to_sponsors (index_rows [mk_row ''Acme'' ''London'', mk_row ''Acme'' ''Leeds'']))
       (normalize ''ACME!'') =
     Some [mk_sponsor ''Acme'' ''London'', mk_sponsor ''Acme'' ''Leeds''] \<and>
   find (\<lambda>x. name x = name (mk_sponsor ''Acme'' ''London''))
       [mk_sponsor ''Acme'' ''London'', mk_sponsor ''Acme'' ''Leeds''] =
     Some (mk_sponsor ''Acme'' ''London'') \<and>
   int (length [mk_sponsor ''Acme'' ''London'', mk_sponsor ''Acme'' ''Leeds'']) \<le> 2 \<and>
   (\<exists>res. search rank0 (index_rows [mk_row ''Acme'' ''London'', mk_row ''Acme'' ''Leeds'']) ''ACME!'' 1 2 = Inr res \<and>
          search rank0 (index_rows [mk_row ''Acme'' ''London'', mk_row ''Acme'' ''Leeds'']) (normalize ''ACME!'') 1 2 = Inr res \<and>
          (mk_sponsor ''Acme'' ''London'', 1) \<in> set res)"
proof -
  have h1: "map_of (name_to_sponsors (index_rows [mk_row ''Acme'' ''London'', mk_row ''Acme'' ''Leeds'']))
       (normalize ''ACME!'') =
     Some [mk_sponsor ''Acme'' ''London'', mk_sponsor ''Acme'' ''Leeds'']"
    by code_simp
  have h2: "find (\<lambda>x. name x = name (mk_sponsor ''Acme'' ''London''))
       [mk_sponsor ''Acme'' ''London'', mk_sponsor ''Acme'' ''Leeds''] =
     Some (mk_sponsor ''Acme'' ''London'')"
    by code_simp
  have h3: "int (length [mk_sponsor ''Acme'' ''London'', mk_sponsor ''Acme'' ''Leeds'']) \<le> 2"
    by simp
  note c = exact_match_first_of_name[OF h1 h2 h3, where rank = rank0 and t = 1]
  show ?thesis by (intro conjI h1 h2 h3 c)
qed

text \<open>
  Claim C2, as stated: if the normalized query is a substring of an indexed normalized
  name \<open>M\<close>, a search with threshold at most 0.9 includes the records of \<open>M\<close> with score at
  least 0.9. It fails when the result is cut to \<open>max_results\<close> (first instance: two names
  contain the query and \<open>max_results = 1\<close>), and when two records stored under \<open>M\<close> carry
  the same company name and the query matches \<open>M\<close> exactly (second instance: the second
  record is not returned at all).
\<close>

theorem substring_match_counterexample:
  "(map_of (name_to_sponsors (index_rows [mk_row ''Barclays Bank PLC'' ''London'', mk_row ''Barclays UK'' ''Leeds'']))
        ''barclays uk'' = Some [mk_sponsor ''Barclays UK'' ''Leeds''] \<and>
    is_substring (normalize ''Barclays'') ''barclays uk'' \<and> (1 / 2 :: rat) \<le> 9 / 10 \<and>
    search rank0 (index_rows [mk_row ''Barclays Bank PLC'' ''London'', mk_row ''Barclays UK'' ''Leeds''])
        ''Barclays'' (1 / 2) 1 = Inr [(mk_sponsor ''Barclays Bank PLC'' ''London'', 9 / 10)] \<and>
    mk_sponsor ''Barclays UK'' ''Leeds'' \<notin> fst ` set [(mk_sponsor ''Barclays Bank PLC'' ''London'', 9 / 10 :: rat)]) \<and>
   (map_of (name_to_sponsors (index_rows [mk_row ''acme'' ''London'', mk_row ''acme'' ''Leeds'']))
        ''acme'' = Some [mk_sponsor ''acme'' ''London'', mk_sponsor ''acme'' ''Leeds''] \<and>
    is_substring (normalize ''acme'') ''acme'' \<and>
    search rank0 (index_rows [mk_row ''acme'' ''London'', mk_row ''acme'' ''Leeds''])
        ''acme'' (1 / 2) 10 = Inr [(mk_sponsor ''acme'' ''London'', 1)] \<and>
    mk_sponsor ''acme'' ''Leeds'' \<notin> fst ` set [(mk_sponsor ''acme'' ''London'', 1 :: rat)])"
  by code_simp

text \<open>
  Claim C2, amended: if the normalized query is a substring of an indexed normalized name
  \<open>M\<close> and the search returns fewer than \<open>max_results\<close> results (nothing was cut off),
  then at every threshold the result includes every record of \<open>M\<close> with score 0.9 when
  \<open>M\<close> differs from the normalized query, and with score 1.0 every record that is the
  first one stored under \<open>M\<close> with its company name when \<open>M\<close> is the normalized query.
\<close>

theorem substring_match_included:
  assumes "map_of (name_to_sponsors (index_rows rows)) M = Some sps"
      and "is_substring (normalize q) M"
      and "sp \<in> set sps"
      and "M \<noteq> normalize q \<or> find (\<lambda>x. name x = name sp) sps = Some sp"
      and "search rank (index_rows rows) q t m = Inr res"
      and "int (length res) < m"
  shows "(sp, if M = normalize q then 1 else 9 / 10) \<in> set res"
proof -
  let ?reg = "index_rows rows"
  let ?qn = "normalize q"
  let ?st1 = "exact_stage ?reg ?qn ([], {})"
  let ?st2 = "substring_stage ?reg ?qn ?st1"
  have inv: "reg_inv ?reg" by (rule reg_inv_index_rows)
  from search_structure[OF inv, of rank q t] obtain rest where
    r: "search_ranked rank ?reg q t = Inr (fst ?st1 @ rest)"
       "set (fst ?st2) \<subseteq> set (fst ?st1 @ rest)"
    by blast
  from assms(5) r(1) have res: "res = slice_to m (fst ?st1 @ rest)" by (simp add: search_def)
  with assms(6) have full: "res = fst ?st1 @ rest" using slice_to_short by metis
  show ?thesis
  proof (cases "M = ?qn")
    case True
    with assms(4) have f: "find (\<lambda>x. name x = name sp) sps = Some sp" by simp
    from exact_stage_ext[of ?reg ?qn] assms(1) True f have "(sp, 1) \<in> set (fst ?st1)" by auto
    with full True show ?thesis by simp
  next
    case False
    have notseen: "M \<notin> snd ?st1"
    proof
      assume a: "M \<in> snd ?st1"
      from exact_stage_ext[of ?reg ?qn] a obtain sps0 x where
        s0: "map_of (name_to_sponsors ?reg) ?qn = Some sps0" "x \<in> set sps0" "M = name x"
        by (cases "map_of (name_to_sponsors ?reg) ?qn") auto
      from reg_inv_record[OF inv s0(1,2)] s0(3) have "normalize M = ?qn" by simp
      moreover from reg_inv_key[OF inv assms(1)] have "normalize M = M" .
      ultimately show False using False by simp
    qed
    have "(M, sps) \<in> set (name_to_sponsors ?reg)" using assms(1) by (rule map_of_SomeD)
    from substring_fold_mem[OF reg_inv_distinct[OF inv] this notseen assms(2,3)]
    have "(sp, 9 / 10) \<in> set (fst ?st2)" by (simp add: substring_stage_def)
    with r(2) full False show ?thesis by auto
  qed
qed

theorem substring_match_included_witness:
  "map_of (name_to_sponsors (index_rows [mk_row ''Barclays Bank PLC'' ''London'', mk_row ''Barclays UK'' ''Leeds'']))
       ''barclays uk'' = Some [mk_sponsor ''Barclays UK'' ''Leeds''] \<and>
   is_substring (normalize ''Barclays'') ''barclays uk'' \<and>
   mk_sponsor ''Barclays UK'' ''Leeds'' \<in> set [mk_sponsor ''Barclays UK'' ''Leeds''] \<and>
   ''barclays uk'' \<noteq> normalize ''Barclays'' \<and>
   search rank0 (index_rows [mk_row ''Barclays Bank PLC'' ''London'', mk_row ''Barclays UK'' ''Leeds''])
       ''Barclays'' (95 / 100) 5 =
     Inr [(mk_sponsor ''Barclays Bank PLC'' ''London'', 9 / 10), (mk_sponsor ''Barclays UK'' ''Leeds'', 9 / 10)] \<and>
   int (length [(mk_sponsor ''Barclays Bank PLC'' ''London'', 9 / 10 :: rat), (mk_sponsor ''Barclays UK'' ''Leeds'', 9 / 10)]) < 5 \<and>
   (mk_sponsor ''Barclays UK'' ''Leeds'', if ''barclays uk'' = normalize ''Barclays'' then 1 else 9 / 10) \<in>
     set [(mk_sponsor ''Barclays Bank PLC'' ''London'', 9 / 10 :: rat), (mk_sponsor ''Barclays UK'' ''Leeds'', 9 / 10)]"
proof -
  have h1: "map_of (name_to_sponsors (index_rows [mk_row ''Barclays Bank PLC'' ''London'', mk_row ''Barclays UK'' ''Leeds'']))
       ''barclays uk'' = Some [mk_sponsor ''Barclays UK'' ''Leeds'']"
    by code_simp
  have h2: "is_substring (normalize ''Barclays'') ''barclays uk''" by code_simp
  have h3: "mk_sponsor ''Barclays UK'' ''Leeds'' \<in> set [mk_sponsor ''Barclays UK'' ''Leeds'']" by simp
  have h4: "''barclays uk'' \<noteq> normalize ''Barclays''" by code_simp
  have h5: "search rank0 (index_rows [mk_row ''Barclays Bank PLC'' ''London'', mk_row ''Barclays UK'' ''Leeds''])
       ''Barclays'' (95 / 100) 5 =
     Inr [(mk_sponsor ''Barclays Bank PLC'' ''London'', 9 / 10), (mk_sponsor ''Barclays UK'' ''Leeds'', 9 / 10)]"
    by code_simp
  have h6: "int (length [(mk_sponsor ''Barclays Bank PLC'' ''London'', 9 / 10 :: rat), (mk_sponsor ''Barclays UK'' ''Leeds'', 9 / 10)]) < 5"
    by simp
  note c = substring_match_included[OF h1 h2 h3 disjI1[OF h4] h5 h6]
  show ?thesis by (intro conjI h1 h2 h3 h4 h5 h6 c)
qed

text \<open>
  Claim C3: a query that normalizes to the empty string yields an empty result. The code
  has no case for it: the empty string is a substring of every indexed name, so the
  substring stage returns every record with score 0.9. Here the query \<open>!!!\<close> on a registry
  of one record (the search itself never raises: \<open>search_never_raises\<close>).
\<close>

theorem empty_query_returns_matches:
  "normalize ''!!!'' = [] \<and>
   search rank0 (index_rows [mk_row ''Barclays Bank PLC'' ''London'']) ''!!!'' (1 / 2) 10 =
     Inr [(mk_sponsor ''Barclays Bank PLC'' ''London'', 9 / 10)]"
  by code_simp

text \<open>
  Claim C4: a name resolved at an earlier stage is never scored again, so no record is
  returned twice. The exact stage adds the company name as written in the registry to
  \<open>seen\<close>, the later stages look the normalized name up in it: a record whose name is not
  already in normalized form is returned by the exact stage with 1.0 and again by the
  substring stage with 0.9.
\<close>

theorem exact_match_scored_twice:
  "search rank0 (index_rows [mk_row ''Barclays Bank PLC'' ''London'']) ''Barclays Bank PLC'' (1 / 2) 10 =
     Inr [(mk_sponsor ''Barclays Bank PLC'' ''London'', 1),
          (mk_sponsor ''Barclays Bank PLC'' ''London'', 9 / 10)]"
  by code_simp

text \<open>
  Claim C5: for a fixed query and \<open>max_results\<close>, raising the threshold never increases
  the number of results (on every loaded registry and for every iteration order; both
  searches return).
\<close>

theorem threshold_monotone:
  assumes "t1 \<le> t2"
  shows "\<exists>r1 r2. search rank (index_rows rows) q t1 m = Inr r1 \<and>
                 search rank (index_rows rows) q t2 m = Inr r2 \<and>
                 length r2 \<le> length r1"
proof -
  let ?reg = "index_rows rows"
  let ?qn = "normalize q"
  let ?st2 = "substring_stage ?reg ?qn (exact_stage ?reg ?qn ([], {}))"
  let ?cands = "set_iter rank (candidate_names ?reg (filter (\<lambda>w. length w > 2) (split ?qn)))"
  have inv: "reg_inv ?reg" by (rule reg_inv_index_rows)
  have ok: "\<forall>n\<in>set ?cands. \<exists>sps. map_of (name_to_sponsors ?reg) n = Some sps"
    using candidates_indexed[OF inv] by blast
  from score_stage_ok[OF ok, of ?qn t1 ?st2] obtain a1 where a1: "score_stage ?reg ?qn t1 ?cands ?st2 = Inr a1"
    by blast
  from score_stage_ok[OF ok, of ?qn t2 ?st2] obtain a2 where a2: "score_stage ?reg ?qn t2 ?cands ?st2 = Inr a2"
    by blast
  from score_stage_mono[OF distinct_candidates assms refl a1 a2]
  have le: "length (fst a2) \<le> length (fst a1)" by simp
  have s1: "search rank ?reg q t1 m = Inr (slice_to m (sort_by_score (fst a1)))"
    by (simp add: search_def search_ranked_def Let_def a1)
  have s2: "search rank ?reg q t2 m = Inr (slice_to m (sort_by_score (fst a2)))"
    by (simp add: search_def search_ranked_def Let_def a2)
  have "length (slice_to m (sort_by_score (fst a2))) \<le> length (slice_to m (sort_by_score (fst a1)))"
    by (rule length_slice_to_mono) (simp add: length_sort_by_score le)
  with s1 s2 show ?thesis by blast
qed

theorem threshold_monotone_witness:
  "(1 / 2 :: rat) \<le> 8 / 10 \<and>
   (\<exists>r1 r2. search rank0 (index_rows [mk_row ''HSBC Bank Plc'' ''London'']) ''hsbc uk'' (1 / 2) 10 = Inr r1 \<and>
            search rank0 (index_rows [mk_row ''HSBC Bank Plc'' ''London'']) ''hsbc uk'' (8 / 10) 10 = Inr r2 \<and>
            length r2 \<le> length r1) \<and>
   search rank0 (index_rows [mk_row ''HSBC Bank Plc'' ''London'']) ''hsbc uk'' (1 / 2) 10 =
     Inr [(mk_sponsor ''HSBC Bank Plc'' ''London'', 3 / 4)] \<and>
   search rank0 (index_rows [mk_row ''HSBC Bank Plc'' ''London'']) ''hsbc uk'' (8 / 10) 10 = Inr []"
proof -
  have h: "(1 / 2 :: rat) \<le> 8 / 10" by simp
  have e1: "search rank0 (index_rows [mk_row ''HSBC Bank Plc'' ''London'']) ''hsbc uk'' (1 / 2) 10 =
     Inr [(mk_sponsor ''HSBC Bank Plc'' ''London'', 3 / 4)]"
    by code_simp
  have e2: "search rank0 (index_rows [mk_row ''HSBC Bank Plc'' ''London'']) ''hsbc uk'' (8 / 10) 10 = Inr []"
    by code_simp
  note c = threshold_monotone[OF h, of rank0 "[mk_row ''HSBC Bank Plc'' ''London'']" "''hsbc uk''" 10]
  show ?thesis by (intro conjI h e1 e2 c)
qed

text \<open>
  Claim C6: \<open>is_sponsor(name, threshold)\<close> calls the search with \<open>max_results = 1\<close>. The
  ranking is the matches accumulated by the four stages, rearranged in descending order of
  score, so the one entry the call looks at is the top record, a match of the highest
  score; \<open>is_sponsor\<close> returns that record if and only if its score is at least the
  threshold, otherwise none, and it never raises.
\<close>

theorem is_sponsor_top_record:
  "\<exists>st full res.
      score_stage (index_rows rows) (normalize nm) t
          (set_iter rank (candidate_names (index_rows rows)
             (filter (\<lambda>w. length w > 2) (split (normalize nm)))))
          (substring_stage (index_rows rows) (normalize nm)
             (exact_stage (index_rows rows) (normalize nm) ([], {}))) = Inr st \<and>
      search_ranked rank (index_rows rows) nm t = Inr full \<and>
      mset full = mset (fst st) \<and>
      sorted_wrt (\<lambda>a b. snd b \<le> snd a) full \<and>
      search rank (index_rows rows) nm t 1 = Inr res \<and> res = take 1 full \<and>
      is_sponsor rank (index_rows rows) nm t =
        Inr (case res of [] \<Rightarrow> None | m # _ \<Rightarrow> if t \<le> snd m then Some (fst m) else None)"
proof -
  let ?reg = "index_rows rows"
  let ?qn = "normalize nm"
  let ?st2 = "substring_stage ?reg ?qn (exact_stage ?reg ?qn ([], {}))"
  let ?cands = "set_iter rank (candidate_names ?reg (filter (\<lambda>w. length w > 2) (split ?qn)))"
  have "\<forall>n\<in>set ?cands. \<exists>sps. map_of (name_to_sponsors ?reg) n = Some sps"
    using candidates_indexed[OF reg_inv_index_rows] by blast
  from score_stage_ok[OF this, of ?qn t ?st2] obtain st where
    st: "score_stage ?reg ?qn t ?cands ?st2 = Inr st" by blast
  let ?full = "sort_by_score (fst st)"
  have f: "search_ranked rank ?reg nm t = Inr ?full"
    by (simp add: search_ranked_def Let_def st)
  then have s: "search rank ?reg nm t 1 = Inr (take 1 ?full)"
    by (simp add: search_def slice_to_1)
  have i: "is_sponsor rank ?reg nm t =
        Inr (case take 1 ?full of [] \<Rightarrow> None | m # _ \<Rightarrow> if t \<le> snd m then Some (fst m) else None)"
    by (simp add: is_sponsor_def s split: list.splits)
  show ?thesis
    by (intro exI[of _ st] exI[of _ ?full] exI[of _ "take 1 ?full"] conjI
          st f mset_sort_by_score sort_by_score_sorted s refl i)
qed

theorem is_sponsor_top_record_witness:
  "(\<exists>st full res.
      score_stage (index_rows [mk_row ''ab'' ''Hull'', mk_row ''cde ab'' ''York'']) (normalize ''ab cde'') (9 / 10)
          (set_iter rank0 (candidate_names (index_rows [mk_row ''ab'' ''Hull'', mk_row ''cde ab'' ''York''])
             (filter (\<lambda>w. length w > 2) (split (normalize ''ab cde'')))))
          (substring_stage (index_rows [mk_row ''ab'' ''Hull'', mk_row ''cde ab'' ''York'']) (normalize ''ab cde'')
             (exact_stage (index_rows [mk_row ''ab'' ''Hull'', mk_row ''cde ab'' ''York'']) (normalize ''ab cde'') ([], {}))) = Inr st \<and>
      search_ranked rank0 (index_rows [mk_row ''ab'' ''Hull'', mk_row ''cde ab'' ''York'']) ''ab cde'' (9 / 10) = Inr full \<and>
      mset full = mset (fst st) \<and>
      sorted_wrt (\<lambda>a b. snd b \<le> snd a) full \<and>
      search rank0 (index_rows [mk_row ''ab'' ''Hull'', mk_row ''cde ab'' ''York'']) ''ab cde'' (9 / 10) 1 = Inr res \<and> res = take 1 full \<and>
      is_sponsor rank0 (index_rows [mk_row ''ab'' ''Hull'', mk_row ''cde ab'' ''York'']) ''ab cde'' (9 / 10) =
        Inr (case res of [] \<Rightarrow> None | m # _ \<Rightarrow> if 9 / 10 \<le> snd m then Some (fst m) else None)) \<and>
   search_ranked rank0 (index_rows [mk_row ''ab'' ''Hull'', mk_row ''cde ab'' ''York'']) ''ab cde'' (9 / 10) =
     Inr [(mk_sponsor ''cde ab'' ''York'', 1), (mk_sponsor ''ab'' ''Hull'', 85 / 100)] \<and>
   is_sponsor rank0 (index_rows [mk_row ''ab'' ''Hull'', mk_row ''cde ab'' ''York'']) ''ab cde'' (9 / 10) =
     Inr (Some (mk_sponsor ''cde ab'' ''York''))"
proof -
  note c = is_sponsor_top_record[of "[mk_row ''ab'' ''Hull'', mk_row ''cde ab'' ''York'']" "''ab cde''" "9 / 10" rank0]
  have e1: "search_ranked rank0 (index_rows [mk_row ''ab'' ''Hull'', mk_row ''cde ab'' ''York'']) ''ab cde'' (9 / 10) =
     Inr [(mk_sponsor ''cde ab'' ''York'', 1), (mk_sponsor ''ab'' ''Hull'', 85 / 100)]"
    by code_simp
  have e2: "is_sponsor rank0 (index_rows [mk_row ''ab'' ''Hull'', mk_row ''cde ab'' ''York'']) ''ab cde'' (9 / 10) =
     Inr (Some (mk_sponsor ''cde ab'' ''York''))"
    by code_simp
  show ?thesis by (intro conjI c e1 e2)
qed

text \<open>
  Claim C7: for every result list, \<open>deduplicate_results\<close> returns at most one entry per
  company name; every entry is an entry of the input, unaltered; for every input entry the
  output holds an entry of the same company name with a score at least as high (so the
  kept entry carries the maximum score of its name); and the output is sorted by score,
  descending.
\<close>

theorem deduplicate_keeps_best:
  "distinct (map (\<lambda>m. name (fst m)) (deduplicate_results rs)) \<and>
   set (deduplicate_results rs) \<subseteq> set rs \<and>
   (\<forall>m\<in>set rs. \<exists>b\<in>set (deduplicate_results rs). name (fst b) = name (fst m) \<and> snd m \<le> snd b) \<and>
   sorted_wrt (\<lambda>a b. snd b \<le> snd a) (deduplicate_results rs)"
proof -
  let ?seen = "fold dedup_step rs []"
  have d: "distinct (map fst ?seen)" by (rule dedup_fold_distinct) simp
  have e: "\<forall>e\<in>set ?seen. fst e = name (fst (snd e)) \<and> snd e \<in> set rs"
    by (rule dedup_fold_entries) simp_all
  then have "map (\<lambda>m. name (fst m)) (map snd ?seen) = map fst ?seen" by simp
  with d have "distinct (map (\<lambda>m. name (fst m)) (map snd ?seen))" by metis
  then have 1: "distinct (map (\<lambda>m. name (fst m)) (deduplicate_results rs))"
    unfolding deduplicate_results_def by (rule distinct_map_sort_by_score)
  have 2: "set (deduplicate_results rs) \<subseteq> set rs"
    using e by (auto simp: deduplicate_results_def set_sort_by_score)
  have 3: "\<forall>m\<in>set rs. \<exists>b\<in>set (deduplicate_results rs). name (fst b) = name (fst m) \<and> snd m \<le> snd b"
  proof
    fix m assume "m \<in> set rs"
    from dedup_fold_covers[OF this, of "[]"] obtain b where
      b: "map_of ?seen (name (fst m)) = Some b" "snd m \<le> snd b" by blast
    from map_of_SomeD[OF b(1)] have in_seen: "(name (fst m), b) \<in> set ?seen" .
    with e have "name (fst b) = name (fst m)" by fastforce
    moreover from in_seen have "b \<in> set (deduplicate_results rs)"
      by (force simp: deduplicate_results_def set_sort_by_score)
    ultimately show "\<exists>b\<in>set (deduplicate_results rs). name (fst b) = name (fst m) \<and> snd m \<le> snd b"
      using b(2) by blast
  qed
  have 4: "sorted_wrt (\<lambda>a b. snd b \<le> snd a) (deduplicate_results rs)"
    unfolding deduplicate_results_def by (rule sort_by_score_sorted)
  from 1 2 3 4 show ?thesis by blast
qed

theorem deduplicate_keeps_best_witness:
  "deduplicate_results
       [(mk_sponsor ''Acme'' ''London'', 9 / 10), (mk_sponsor ''HSBC'' ''Leeds'', 3 / 4),
        (mk_sponsor ''Acme'' ''Leeds'', 1), (mk_sponsor ''Acme'' ''London'', 1)] =
     [(mk_sponsor ''Acme'' ''Leeds'', 1), (mk_sponsor ''HSBC'' ''Leeds'', 3 / 4)] \<and>
   (mk_sponsor ''Acme'' ''London'', 9 / 10) \<in>
     set [(mk_sponsor ''Acme'' ''London'', 9 / 10 :: rat), (mk_sponsor ''HSBC'' ''Leeds'', 3 / 4),
          (mk_sponsor ''Acme'' ''Leeds'', 1), (mk_sponsor ''Acme'' ''London'', 1)] \<and>
   (\<exists>b\<in>set (deduplicate_results
       [(mk_sponsor ''Acme'' ''London'', 9 / 10), (mk_sponsor ''HSBC'' ''Leeds'', 3 / 4),
        (mk_sponsor ''Acme'' ''Leeds'', 1), (mk_sponsor ''Acme'' ''London'', 1)]).
      name (fst b) = name (fst (mk_sponsor ''Acme'' ''London'', 9 / 10 :: rat)) \<and>
      snd (mk_sponsor ''Acme'' ''London'', 9 / 10 :: rat) \<le> snd b)"
proof -
  let ?rs = "[(mk_sponsor ''Acme'' ''London'', 9 / 10 :: rat), (mk_sponsor ''HSBC'' ''Leeds'', 3 / 4),
        (mk_sponsor ''Acme'' ''Leeds'', 1), (mk_sponsor ''Acme'' ''London'', 1)]"
  have e: "deduplicate_results ?rs =
     [(mk_sponsor ''Acme'' ''Leeds'', 1), (mk_sponsor ''HSBC'' ''Leeds'', 3 / 4)]"
    by code_simp
  have h: "(mk_sponsor ''Acme'' ''London'', 9 / 10) \<in> set ?rs" by simp
  from deduplicate_keeps_best[of ?rs]
  have "\<forall>m\<in>set ?rs. \<exists>b\<in>set (deduplicate_results ?rs). name (fst b) = name (fst m) \<and> snd m \<le> snd b"
    by (elim conjE)
  from bspec[OF this h] e h show ?thesis by (intro conjI)
qed

text \<open>
  Claim C8: the substring stage assigns its scores whatever the threshold is. For an
  indexed name \<open>M\<close> other than the normalized query, at every threshold every record of
  \<open>M\<close> is in the ranking with score 0.9 when the normalized query is a substring of \<open>M\<close>,
  and with score 0.85 when it is not, has more than 5 characters and contains \<open>M\<close>. Hence
  there are a registry, a query and a threshold above 0.9 (and at most 1) for which the
  search returns a result of score 0.9, and likewise one of score 0.85, below the threshold.
\<close>

theorem substring_scores_ignore_threshold:
  assumes "map_of (name_to_sponsors (index_rows rows)) M = Some sps" and "sp \<in> set sps"
      and "M \<noteq> normalize q"
  shows "(\<exists>full. search_ranked rank (index_rows rows) q t = Inr full \<and>
            (is_substring (normalize q) M \<longrightarrow> (sp, 9 / 10) \<in> set full) \<and>
            (\<not> is_substring (normalize q) M \<and> length (normalize q) > 5 \<and> is_substring M (normalize q)
               \<longrightarrow> (sp, 85 / 100) \<in> set full)) \<and>
         (\<exists>rows' q' t' m' res sp'. 9 / 10 < t' \<and> t' \<le> 1 \<and>
            search rank (index_rows rows') q' t' m' = Inr res \<and> (sp', 9 / 10) \<in> set res) \<and>
         (\<exists>rows' q' t' m' res sp'. 9 / 10 < t' \<and> t' \<le> 1 \<and>
            search rank (index_rows rows') q' t' m' = Inr res \<and> (sp', 85 / 100) \<in> set res)"
proof (intro conjI)
  show "\<exists>full. search_ranked rank (index_rows rows) q t = Inr full \<and>
            (is_substring (normalize q) M \<longrightarrow> (sp, 9 / 10) \<in> set full) \<and>
            (\<not> is_substring (normalize q) M \<and> length (normalize q) > 5 \<and> is_substring M (normalize q)
               \<longrightarrow> (sp, 85 / 100) \<in> set full)"
    by (rule substring_stage_in_ranking[OF assms])
next
  let ?rows = "[mk_row ''Barclays Bank PLC'' ''London'']"
  let ?sp = "mk_sponsor ''Barclays Bank PLC'' ''London''"
  have k: "map_of (name_to_sponsors (index_rows ?rows)) ''barclays bank plc'' = Some [?sp]"
    by code_simp
  have n: "''barclays bank plc'' \<noteq> normalize ''barclays''" by code_simp
  have s: "is_substring (normalize ''barclays'') ''barclays bank plc''" by code_simp
  have m: "?sp \<in> set [?sp]" by simp
  from substring_stage_in_ranking[OF k m n, of rank 1] obtain full where
    f: "search_ranked rank (index_rows ?rows) ''barclays'' 1 = Inr full"
    and g: "is_substring (normalize ''barclays'') ''barclays bank plc'' \<longrightarrow> (?sp, 9 / 10) \<in> set full"
    by (elim exE conjE)
  from g s have mem: "(?sp, 9 / 10) \<in> set full" by (rule mp)
  have b1: "(9 / 10 :: rat) < 1" by simp
  have b2: "(1 :: rat) \<le> 1" by simp
  show "\<exists>rows' q' t' m' res sp'. 9 / 10 < t' \<and> t' \<le> 1 \<and>
            search rank (index_rows rows') q' t' m' = Inr res \<and> (sp', 9 / 10) \<in> set res"
    by (intro exI[of _ ?rows] exI[of _ "''barclays''"] exI[of _ 1] exI[of _ "int (length full)"]
          exI[of _ full] exI[of _ ?sp] conjI b1 b2 ranking_untruncated[OF f] mem)
next
  let ?rows = "[mk_row ''Barclays Bank PLC'' ''London'']"
  let ?sp = "mk_sponsor ''Barclays Bank PLC'' ''London''"
  let ?q = "''Barclays Bank PLC London''"
  have k: "map_of (name_to_sponsors (index_rows ?rows)) ''barclays bank plc'' = Some [?sp]"
    by code_simp
  have n: "''barclays bank plc'' \<noteq> normalize ?q" by code_simp
  have s: "\<not> is_substring (normalize ?q) ''barclays bank plc'' \<and> length (normalize ?q) > 5 \<and>
           is_substring ''barclays bank plc'' (normalize ?q)" by code_simp
  have m: "?sp \<in> set [?sp]" by simp
  from substring_stage_in_ranking[OF k m n, of rank 1] obtain full where
    f: "search_ranked rank (index_rows ?rows) ?q 1 = Inr full"
    and g: "\<not> is_substring (normalize ?q) ''barclays bank plc'' \<and> length (normalize ?q) > 5 \<and>
           is_substring ''barclays bank plc'' (normalize ?q) \<longrightarrow> (?sp, 85 / 100) \<in> set full"
    by (elim exE conjE)
  from g s have mem: "(?sp, 85 / 100) \<in> set full" by (rule mp)
  have b1: "(9 / 10 :: rat) < 1" by simp
  have b2: "(1 :: rat) \<le> 1" by simp
  show "\<exists>rows' q' t' m' res sp'. 9 / 10 < t' \<and> t' \<le> 1 \<and>
            search rank (index_rows rows') q' t' m' = Inr res \<and> (sp', 85 / 100) \<in> set res"
    by (intro exI[of _ ?rows] exI[of _ ?q] exI[of _ 1] exI[of _ "int (length full)"]
          exI[of _ full] exI[of _ ?sp] conjI b1 b2 ranking_untruncated[OF f] mem)
qed

theorem substring_scores_ignore_threshold_witness:
  "map_of (name_to_sponsors (index_rows [mk_row ''Barclays Bank PLC'' ''London''])) ''barclays bank plc'' =
     Some [mk_sponsor ''Barclays Bank PLC'' ''London''] \<and>
   mk_sponsor ''Barclays Bank PLC'' ''London'' \<in> set [mk_sponsor ''Barclays Bank PLC'' ''London''] \<and>
   ''barclays bank plc'' \<noteq> normalize ''barclays'' \<and>
   is_substring (normalize ''barclays'') ''barclays bank plc'' \<and>
   (\<exists>full. search_ranked rank0 (index_rows [mk_row ''Barclays Bank PLC'' ''London'']) ''barclays'' 1 = Inr full \<and>
      (mk_sponsor ''Barclays Bank PLC'' ''London'', 9 / 10) \<in> set full) \<and>
   search rank0 (index_rows [mk_row ''Barclays Bank PLC'' ''London'']) ''barclays'' 1 10 =
     Inr [(mk_sponsor ''Barclays Bank PLC'' ''London'', 9 / 10)] \<and>
   search rank0 (index_rows [mk_row ''Barclays Bank PLC'' ''London'']) ''Barclays Bank PLC London'' 1 10 =
     Inr [(mk_sponsor ''Barclays Bank PLC'' ''London'', 85 / 100)]"
proof -
  have h1: "map_of (name_to_sponsors (index_rows [mk_row ''Barclays Bank PLC'' ''London''])) ''barclays bank plc'' =
     Some [mk_sponsor ''Barclays Bank PLC'' ''London'']"
    by code_simp
  have h2: "mk_sponsor ''Barclays Bank PLC'' ''London'' \<in> set [mk_sponsor ''Barclays Bank PLC'' ''London'']"
    by simp
  have h3: "''barclays bank plc'' \<noteq> normalize ''barclays''" by code_simp
  have h4: "is_substring (normalize ''barclays'') ''barclays bank plc''" by code_simp
  from substring_scores_ignore_threshold[OF h1 h2 h3, of rank0 1, THEN conjunct1] obtain full where
    f: "search_ranked rank0 (index_rows [mk_row ''Barclays Bank PLC'' ''London'']) ''barclays'' 1 = Inr full"
    and g: "is_substring (normalize ''barclays'') ''barclays bank plc'' \<longrightarrow>
            (mk_sponsor ''Barclays Bank PLC'' ''London'', 9 / 10) \<in> set full"
    by (elim exE conjE)
  from g h4 have "(mk_sponsor ''Barclays Bank PLC'' ''London'', 9 / 10) \<in> set full" by (rule mp)
  with f have c: "\<exists>full. search_ranked rank0 (index_rows [mk_row ''Barclays Bank PLC'' ''London'']) ''barclays'' 1 = Inr full \<and>
      (mk_sponsor ''Barclays Bank PLC'' ''London'', 9 / 10) \<in> set full"
    by (intro exI[of _ full] conjI)
  have e1: "search rank0 (index_rows [mk_row ''Barclays Bank PLC'' ''London'']) ''barclays'' 1 10 =
     Inr [(mk_sponsor ''Barclays Bank PLC'' ''London'', 9 / 10)]"
    by code_simp
  have e2: "search rank0 (index_rows [mk_row ''Barclays Bank PLC'' ''London'']) ''Barclays Bank PLC London'' 1 10 =
     Inr [(mk_sponsor ''Barclays Bank PLC'' ''London'', 85 / 100)]"
    by code_simp
  show ?thesis by (intro conjI h1 h2 h3 h4 c e1 e2)
qed

section \<open>The URL extractor\<close>

lemma clean_company_name_valid:
  "clean_company_name nm = Some s \<Longrightarrow> 2 \<le> length s \<and> list_ex is_alpha s"
  by (auto simp: clean_company_name_def Let_def split: if_splits)

lemma try_patterns_valid:
  "try_patterns ps u = Some s \<Longrightarrow> 2 \<le> length s \<and> list_ex is_alpha s"
proof (induction ps)
  case Nil
  then show ?case by simp
next
  case (Cons p ps)
  then show ?case
    by (auto split: option.splits dest: clean_company_name_valid)
qed

lemma known_company_table:
  "known_company domain = Some s \<Longrightarrow> s \<in> snd ` set KNOWN_COMPANY_DOMAINS"
proof -
  assume "known_company domain = Some s"
  then obtain kv where kv: "find (\<lambda>kv. is_substring (fst kv) domain) KNOWN_COMPANY_DOMAINS = Some kv" "s = snd kv"
    by (auto simp: known_company_def)
  from kv(1) have "kv \<in> set KNOWN_COMPANY_DOMAINS"
    by (metis find_Some_iff nth_mem)
  with kv(2) show ?thesis by simp
qed

lemma extract_result_known_or_clean:
  assumes "extract_company_from_url host_ok url = Inr (Some s)"
  shows "s \<in> snd ` set KNOWN_COMPANY_DOMAINS \<or> (2 \<le> length s \<and> list_ex is_alpha s)"
proof -
  from assms obtain netloc where n: "urlparse_netloc host_ok url = Inr netloc"
    by (cases "urlparse_netloc host_ok url") (simp_all add: extract_company_from_url_def Let_def)
  show ?thesis
  proof (cases "known_company (lower netloc)")
    case (Some c)
    with assms n have "s = c" by (simp add: extract_company_from_url_def Let_def)
    with Some known_company_table show ?thesis by blast
  next
    case None
    show ?thesis
    proof (cases "try_patterns url_patterns (lower url)")
      case (Some c)
      with assms n None have "s = c" by (simp add: extract_company_from_url_def Let_def)
      with Some try_patterns_valid show ?thesis by blast
    next
      case np: None
      show ?thesis
      proof (cases "subdomain_company (lower netloc)")
        case (Some c)
        with assms n None np have "s = c" by (simp add: extract_company_from_url_def Let_def)
        moreover from Some have "2 \<le> length c \<and> list_ex is_alpha c"
          by (auto simp: subdomain_company_def split: option.splits dest: clean_company_name_valid)
        ultimately show ?thesis by blast
      next
        case ns: None
        with assms n None np show ?thesis by (simp add: extract_company_from_url_def Let_def)
      qed
    qed
  qed
qed

text \<open>
  Claim C9: for a URL (one that \<open>urlparse\<close> accepts) that matches an unreliable job-detail
  pattern and for which no rule of higher priority yields a company (no known domain in
  the host, no company pattern with a cleaned name, no career subdomain with a cleaned
  name), \<open>extract_company_from_url\<close> returns none; so it does for
  \<open>https://uk.indeed.com/viewjob?jk=abc123\<close>.
\<close>

theorem unreliable_url_refused:
  assumes "urlparse_netloc host_ok url = Inr netloc"
      and "known_company (lower netloc) = None"
      and "try_patterns url_patterns (lower url) = None"
      and "subdomain_company (lower netloc) = None"
      and "list_ex (\<lambda>p. is_substring p (lower url)) unreliable_patterns"
  shows "extract_company_from_url host_ok url = Inr None"
  using assms by (simp add: extract_company_from_url_def Let_def)

theorem unreliable_url_refused_witness:
  "urlparse_netloc any_host ''https://uk.indeed.com/viewjob?jk=abc123'' = Inr ''uk.indeed.com'' \<and>
   known_company (lower ''uk.indeed.com'') = None \<and>
   try_patterns url_patterns (lower ''https://uk.indeed.com/viewjob?jk=abc123'') = None \<and>
   subdomain_company (lower ''uk.indeed.com'') = None \<and>
   list_ex (\<lambda>p. is_substring p (lower ''https://uk.indeed.com/viewjob?jk=abc123'')) unreliable_patterns \<and>
   extract_company_from_url any_host ''https://uk.indeed.com/viewjob?jk=abc123'' = Inr None"
proof -
  have h1: "urlparse_netloc any_host ''https://uk.indeed.com/viewjob?jk=abc123'' = Inr ''uk.indeed.com''"
    by code_simp
  have h2: "known_company (lower ''uk.indeed.com'') = None" by code_simp
  have h3: "try_patterns url_patterns (lower ''https://uk.indeed.com/viewjob?jk=abc123'') = None"
    by code_simp
  have h4: "subdomain_company (lower ''uk.indeed.com'') = None" by code_simp
  have h5: "list_ex (\<lambda>p. is_substring p (lower ''https://uk.indeed.com/viewjob?jk=abc123'')) unreliable_patterns"
    by code_simp
  note c = unreliable_url_refused[OF h1 h2 h3 h4 h5]
  show ?thesis by (intro conjI h1 h2 h3 h4 h5 c)
qed

text \<open>
  Claim C10: \<open>extract_company_from_url\<close> is total on strings and never raises. The code
  calls \<open>urlparse\<close> outside any handler, and \<open>urlparse\<close> raises \<open>ValueError\<close> on a network
  location with an unmatched square bracket, so the call raises on \<open>http://[\<close>. (Every
  string the extractor does return is from the known-domain table or has passed cleaning:
  \<open>extract_result_known_or_clean\<close>.)
\<close>

theorem extract_raises_on_unmatched_bracket:
  "extract_company_from_url host_ok ''http://['' = Inl ValueError"
  by code_simp

end
